theory Spec2Isabelle
  imports Main "HOL-Library.Word"
begin

unbundle bit_operations_syntax

section \<open>The JavaScript runtime the trie relies on\<close>

text \<open>
  The trie of \<^verbatim>\<open>hamt.ffi.mjs\<close> works on 32-bit integers (every bitwise operator of
  JavaScript converts its operands with ToInt32 or ToUint32), on arrays that may hold
  \<^verbatim>\<open>undefined\<close>, and on exceptions. Integers are \<open>32 word\<close>; an array is a list of
  options, \<open>None\<close> being \<^verbatim>\<open>undefined\<close> (a hole, or a read past the end); an exception
  is the left summand of a result.
\<close>

type_synonym int32 = "32 word"

datatype error =
    TypeError          \<comment> \<open>destructuring a value that is not iterable; a property of undefined;
                          a key that a WeakMap cannot hold\<close>
  | RangeError         \<comment> \<open>the call stack is exhausted\<close>
  | UndefinedEntry     \<comment> \<open>the source goes on with an entry whose key and value are undefined\<close>

text \<open>\<^verbatim>\<open>array[i]\<close>: undefined past the end.\<close>

definition js_index :: "'a option list \<Rightarrow> nat \<Rightarrow> 'a option" where
  "js_index xs i = (if i < length xs then xs ! i else None)"

text \<open>\<^verbatim>\<open>array[i] = v\<close>: a write past the end extends the array with holes.\<close>

definition js_assign :: "'a option list \<Rightarrow> nat \<Rightarrow> 'a option \<Rightarrow> 'a option list" where
  "js_assign xs i v =
     (if i < length xs then xs[i := v] else xs @ replicate (i - length xs) None @ [v])"

text \<open>\<^verbatim>\<open>array.toSpliced(i, 1)\<close>: a copy without the element at \<open>i\<close>.\<close>

definition toSpliced :: "'a list \<Rightarrow> nat \<Rightarrow> 'a list" where
  "toSpliced xs i = take i xs @ drop (Suc i) xs"

definition cloneAndSet :: "'a option list \<Rightarrow> nat \<Rightarrow> 'a option \<Rightarrow> 'a option list" where
  "cloneAndSet array index v = js_assign array index v"

text \<open>
  \<^verbatim>\<open>cloneAndInsert\<close> copies \<open>array[0..index-1]\<close>, writes the value, then copies the rest.
  With \<open>index\<close> past the end the first loop copies undefined entries up to \<open>index\<close>.
\<close>

definition cloneAndInsert :: "'a option list \<Rightarrow> nat \<Rightarrow> 'a option \<Rightarrow> 'a option list" where
  "cloneAndInsert array index v =
     (if index \<le> length array then take index array @ [v] @ drop index array
      else array @ replicate (index - length array) None @ [v])"

text \<open>
  Modelled from the spec: \<^verbatim>\<open>isEqual\<close> is imported from \<^verbatim>\<open>gleam.mjs\<close>, which is not
  among the sources; the spec assumes "an equality predicate ... reflexive, symmetric,
  transitive", here the equality of the key type.
\<close>

definition isEqual :: "'k \<Rightarrow> 'k \<Rightarrow> bool" where
  "isEqual a b = (a = b)"

section \<open>Bit operations\<close>

definition FRAGMENT_SIZE :: nat where
  "FRAGMENT_SIZE = 5"

definition BUCKET_SIZE :: nat where
  "BUCKET_SIZE = 2 ^ FRAGMENT_SIZE"

definition MASK :: int32 where
  "MASK = of_nat (BUCKET_SIZE - 1)"

definition MAX_CHILDREN_IN_PACKED_NODE :: nat where
  "MAX_CHILDREN_IN_PACKED_NODE = BUCKET_SIZE div 2"

text \<open>\<^verbatim>\<open>>>\<close> is the arithmetic shift of JavaScript, \<open>signed_drop_bit\<close>.\<close>

definition popCount :: "int32 \<Rightarrow> nat" where
  "popCount bitmap =
     (let b1 = bitmap - (signed_drop_bit 1 bitmap AND 0x55555555);
          b2 = (b1 AND 0x33333333) + (signed_drop_bit 2 b1 AND 0x33333333);
          b3 = (b2 + signed_drop_bit 4 b2) AND 0x0f0f0f0f;
          b4 = b3 + signed_drop_bit 8 b3;
          b5 = b4 + signed_drop_bit 16 b4
      in unat (b5 AND 0x7f))"

text \<open>\<^verbatim>\<open>(hash >>> shift) & MASK\<close>: JavaScript takes a shift count modulo 32.\<close>

definition hashFragment :: "nat \<Rightarrow> int32 \<Rightarrow> nat" where
  "hashFragment shift hash = unat (drop_bit (shift mod 32) hash AND MASK)"

definition toMask :: "nat \<Rightarrow> int32" where
  "toMask fragment = push_bit (fragment mod 32) 1"

section \<open>Nodes\<close>

text \<open>
  An entry of a collision node. The type definition of \<^verbatim>\<open>CollisionNode\<close> documents
  pairs \<^verbatim>\<open>[K, V]\<close> (\<open>PairArray\<close>), and the code that reads a collision node
  destructures them as arrays; every place that builds an entry writes an object
  \<^verbatim>\<open>{ key, value }\<close> (\<open>PairObject\<close>).
\<close>

datatype ('k, 'v) pair = PairArray 'k 'v | PairObject 'k 'v

text \<open>
  \<^verbatim>\<open>EMPTY_NODE\<close> is \<^verbatim>\<open>null\<close>; a leaf is the object without a \<^verbatim>\<open>type\<close> field. The
  constructors stand for the builders \<^verbatim>\<open>leafNode\<close>, \<^verbatim>\<open>collisionNode\<close>,
  \<^verbatim>\<open>packedNode\<close> and \<^verbatim>\<open>arrayNode\<close>, with the fields in the builders' order.
\<close>

datatype ('k, 'v) node =
    EMPTY_NODE
  | LeafNode int32 'k 'v
  | CollisionNode int32 "('k, 'v) pair list"
  | PackedNode int32 "('k, 'v) node option list"
  | ArrayNode int "('k, 'v) node option list"

text \<open>\<^verbatim>\<open>const [k, v] = pair\<close>: an object without an iterator throws.\<close>

fun destructure :: "('k, 'v) pair \<Rightarrow> error + 'k \<times> 'v" where
  "destructure (PairArray k v) = Inr (k, v)"
| "destructure (PairObject k v) = Inl TypeError"

text \<open>\<^verbatim>\<open>pair[0]\<close> and \<^verbatim>\<open>pair[1]\<close>: undefined on an object \<^verbatim>\<open>{ key, value }\<close>.\<close>

fun pairElements :: "('k, 'v) pair \<Rightarrow> ('k \<times> 'v) option" where
  "pairElements (PairArray k v) = Some (k, v)"
| "pairElements (PairObject k v) = None"

section \<open>Merging two terminal nodes\<close>

text \<open>
  \<^verbatim>\<open>mergeLeavesLoop\<close> recurses for as long as the two fragments agree; nothing in it
  bounds the recursion, so it is a partial function and \<open>None\<close> is a call that does not
  return.
\<close>

partial_function (option) mergeLeavesLoop ::
  "nat \<Rightarrow> int32 \<Rightarrow> ('k, 'v) node \<Rightarrow> int32 \<Rightarrow> ('k, 'v) node \<Rightarrow> ('k, 'v) node option"
where
  "mergeLeavesLoop shift hash node otherHash otherNode =
     (let fragment = hashFragment shift hash;
          otherFragment = hashFragment shift otherHash;
          bitmap = toMask fragment OR toMask otherFragment
      in if fragment = otherFragment then
           Option.bind (mergeLeavesLoop (shift + FRAGMENT_SIZE) hash node otherHash otherNode)
             (\<lambda>child. Some (PackedNode bitmap [Some child]))
         else if fragment < otherFragment then
           Some (PackedNode bitmap [Some node, Some otherNode])
         else
           Some (PackedNode bitmap [Some otherNode, Some node]))"

declare mergeLeavesLoop.simps [code]

text \<open>
  \<^verbatim>\<open>mergeLeaves\<close> is declared on leaves and collision nodes. In JavaScript a recursion
  that does not return ends in a RangeError; a node of another kind has no key and no
  value to build an entry from.
\<close>

definition mergeLeaves ::
  "nat \<Rightarrow> int32 \<Rightarrow> ('k, 'v) node \<Rightarrow> int32 \<Rightarrow> ('k, 'v) node \<Rightarrow> error + ('k, 'v) node"
where
  "mergeLeaves shift hash node otherHash other =
     (if hash = otherHash then
        (case (node, other) of
           (CollisionNode _ pairs, CollisionNode _ otherPairs) \<Rightarrow>
             Inr (CollisionNode hash (pairs @ otherPairs))
         | (LeafNode _ k v, CollisionNode _ otherPairs) \<Rightarrow>
             Inr (CollisionNode hash (otherPairs @ [PairObject k v]))
         | (CollisionNode _ pairs, LeafNode _ k v) \<Rightarrow>
             Inr (CollisionNode hash (pairs @ [PairObject k v]))
         | (LeafNode _ k v, LeafNode _ ok ov) \<Rightarrow>
             Inr (CollisionNode hash [PairObject ok ov, PairObject k v])
         | _ \<Rightarrow> Inl UndefinedEntry)
      else
        (case mergeLeavesLoop shift hash node otherHash other of
           None \<Rightarrow> Inl RangeError
         | Some merged \<Rightarrow> Inr merged))"

section \<open>The write primitive\<close>

text \<open>
  The sentinels \<^verbatim>\<open>NO_VALUE\<close>, \<^verbatim>\<open>VALUE\<close>, \<^verbatim>\<open>INSERT\<close> and \<^verbatim>\<open>REMOVE\<close> are all
  \<^verbatim>\<open>null\<close>; the code tells \<^verbatim>\<open>null\<close> from a two-element array, which is what the
  constructors below keep apart.
\<close>

datatype 'v arg = NO_VALUE | VALUE 'v

datatype 'v op = REMOVE | INSERT 'v

text \<open>
  The callback \<^verbatim>\<open>alterValue\<close> of \<^verbatim>\<open>set\<close> and \<^verbatim>\<open>remove\<close> assigns to the captured
  variable \<^verbatim>\<open>new_size\<close>: it takes the counter and returns it with its answer.
\<close>

type_synonym 'v alterValue = "'v arg \<Rightarrow> int \<Rightarrow> 'v op \<times> int"

definition alterLeafNode ::
  "nat \<Rightarrow> int32 \<Rightarrow> 'k \<Rightarrow> 'v \<Rightarrow> int32 \<Rightarrow> 'k \<Rightarrow> 'v alterValue \<Rightarrow> int
     \<Rightarrow> error + ('k, 'v) node \<times> int"
where
  "alterLeafNode shift hash nodeKey nodeValue keyHash key alterValue n =
     (if isEqual key nodeKey then
        (case alterValue (VALUE nodeValue) n of
           (REMOVE, n') \<Rightarrow> Inr (EMPTY_NODE, n')
         | (INSERT v, n') \<Rightarrow> Inr (LeafNode hash nodeKey v, n'))
      else
        (case alterValue NO_VALUE n of
           (REMOVE, n') \<Rightarrow> Inr (LeafNode hash nodeKey nodeValue, n')
         | (INSERT v, n') \<Rightarrow>
             (case mergeLeaves shift hash (LeafNode hash nodeKey nodeValue) keyHash
                     (LeafNode keyHash key v) of
                Inl e \<Rightarrow> Inl e
              | Inr merged \<Rightarrow> Inr (merged, n'))))"

text \<open>
  The loop of \<^verbatim>\<open>alterCollisionNode\<close> from index \<open>i\<close>: the index and value of the
  first entry whose key is equal, \<open>None\<close> when the loop runs to its end.
\<close>

fun findPair :: "'k \<Rightarrow> ('k, 'v) pair list \<Rightarrow> nat \<Rightarrow> error + (nat \<times> 'v) option" where
  "findPair key [] i = Inr None"
| "findPair key (p # pairs) i =
     (case destructure p of
        Inl e \<Rightarrow> Inl e
      | Inr (conflictingKey, conflictingValue) \<Rightarrow>
          if isEqual key conflictingKey then Inr (Some (i, conflictingValue))
          else findPair key pairs (Suc i))"

definition alterCollisionNode ::
  "nat \<Rightarrow> int32 \<Rightarrow> ('k, 'v) pair list \<Rightarrow> int32 \<Rightarrow> 'k \<Rightarrow> 'v alterValue \<Rightarrow> int
     \<Rightarrow> error + ('k, 'v) node \<times> int"
where
  "alterCollisionNode shift hash pairs keyHash key alterValue n =
     (if keyHash \<noteq> hash then
        (case alterValue NO_VALUE n of
           (REMOVE, n') \<Rightarrow> Inr (CollisionNode hash pairs, n')
         | (INSERT v, n') \<Rightarrow>
             (case mergeLeaves shift hash (CollisionNode hash pairs) keyHash
                     (LeafNode keyHash key v) of
                Inl e \<Rightarrow> Inl e
              | Inr merged \<Rightarrow> Inr (merged, n')))
      else
        (case findPair key pairs 0 of
           Inl e \<Rightarrow> Inl e
         | Inr None \<Rightarrow>
             (case alterValue NO_VALUE n of
                (REMOVE, n') \<Rightarrow> Inr (CollisionNode hash pairs, n')
              | (INSERT v, n') \<Rightarrow>
                  (case mergeLeaves shift hash (CollisionNode hash pairs) keyHash
                          (LeafNode keyHash key v) of
                     Inl e \<Rightarrow> Inl e
                   | Inr merged \<Rightarrow> Inr (merged, n')))
         | Inr (Some (valueIndex, conflictingValue)) \<Rightarrow>
             (case alterValue (VALUE conflictingValue) n of
                (REMOVE, n') \<Rightarrow>
                  (let newPairs = toSpliced pairs valueIndex in
                   if length newPairs = 1 then
                     (case pairElements (hd newPairs) of
                        None \<Rightarrow> Inl UndefinedEntry
                      | Some (k, v) \<Rightarrow> Inr (LeafNode hash k v, n'))
                   else Inr (CollisionNode hash newPairs, n'))
              | (INSERT v, n') \<Rightarrow>
                  Inr (CollisionNode hash (pairs[valueIndex := PairObject key v]), n'))))"

text \<open>
  The loop of \<^verbatim>\<open>alterPackedNode\<close> that moves the children of a full packed node into
  the 32 slots of an array node: the child \<open>j\<close> goes to the slot of the \<open>j\<close>-th set bit.
\<close>

function promoteLoop ::
  "nat \<Rightarrow> nat \<Rightarrow> int32 \<Rightarrow> 'a option list \<Rightarrow> 'a option list \<Rightarrow> 'a option list"
where
  "promoteLoop i j bitmap nodeChildren children =
     (if i < 32 then
        (if bitmap AND 1 \<noteq> 0 then
           promoteLoop (Suc i) (Suc j) (drop_bit 1 bitmap) nodeChildren
             (js_assign children i (js_index nodeChildren j))
         else promoteLoop (Suc i) j (drop_bit 1 bitmap) nodeChildren children)
      else children)"
  by pat_completeness auto
termination
  by (relation "measure (\<lambda>(i, j, bitmap, nodeChildren, children). 32 - i)") auto

declare promoteLoop.simps [simp del]

lemma js_index_size:
  "js_index children i = Some child \<Longrightarrow> size child < Suc (size_list (size_option size) children)"
proof -
  assume a: "js_index children i = Some child"
  then have "Some child \<in> set children"
    by (auto simp: js_index_def split: if_splits dest: nth_mem)
  then have "size_option size (Some child) \<le> size_list (size_option size) children"
    by (rule size_list_estimation') simp
  then show ?thesis by simp
qed

text \<open>
  \<^verbatim>\<open>alter\<close> with \<^verbatim>\<open>alterPackedNode\<close> and \<^verbatim>\<open>alterArrayNode\<close>. A packed or array node
  is passed by its fields. \<^verbatim>\<open>===\<close> on nodes compares references: a node that
  \<^verbatim>\<open>alter\<close> returns is the child itself or a new object, and where a new object is
  equal to the child in every field the two branches build equal nodes. A child that is
  \<^verbatim>\<open>undefined\<close> makes \<^verbatim>\<open>alter\<close> read \<^verbatim>\<open>undefined.type\<close>.
\<close>

function alter ::
    "nat \<Rightarrow> ('k, 'v) node \<Rightarrow> 'k \<Rightarrow> int32 \<Rightarrow> 'v alterValue \<Rightarrow> int \<Rightarrow> error + ('k, 'v) node \<times> int"
  and alterPackedNode ::
    "nat \<Rightarrow> int32 \<Rightarrow> ('k, 'v) node option list \<Rightarrow> int32 \<Rightarrow> 'k \<Rightarrow> 'v alterValue \<Rightarrow> int
       \<Rightarrow> error + ('k, 'v) node \<times> int"
  and alterArrayNode ::
    "nat \<Rightarrow> int \<Rightarrow> ('k, 'v) node option list \<Rightarrow> int32 \<Rightarrow> 'k \<Rightarrow> 'v alterValue \<Rightarrow> int
       \<Rightarrow> error + ('k, 'v) node \<times> int"
where
  "alter shift EMPTY_NODE key keyHash alterValue n =
     (case alterValue NO_VALUE n of
        (REMOVE, n') \<Rightarrow> Inr (EMPTY_NODE, n')
      | (INSERT v, n') \<Rightarrow> Inr (LeafNode keyHash key v, n'))"
| "alter shift (CollisionNode hash pairs) key keyHash alterValue n =
     alterCollisionNode shift hash pairs keyHash key alterValue n"
| "alter shift (ArrayNode nodeSize children) key keyHash alterValue n =
     alterArrayNode shift nodeSize children keyHash key alterValue n"
| "alter shift (PackedNode bitmap children) key keyHash alterValue n =
     alterPackedNode shift bitmap children keyHash key alterValue n"
| "alter shift (LeafNode hash nodeKey nodeValue) key keyHash alterValue n =
     alterLeafNode shift hash nodeKey nodeValue keyHash key alterValue n"
| "alterPackedNode shift bitmap children keyHash key alterValue n =
     (let fragment = hashFragment shift keyHash;
          mask = toMask fragment;
          childIndex = popCount (bitmap AND (mask - 1))
      in if bitmap AND mask \<noteq> 0 then
           (case js_index children childIndex of
              None \<Rightarrow> Inl TypeError
            | Some child \<Rightarrow>
                (case alter (shift + FRAGMENT_SIZE) child key keyHash alterValue n of
                   Inl e \<Rightarrow> Inl e
                 | Inr (newChild, n') \<Rightarrow>
                     if newChild = EMPTY_NODE then
                       (if bitmap = mask then Inr (EMPTY_NODE, n')
                        else Inr (PackedNode (bitmap XOR mask) (toSpliced children childIndex), n'))
                     else if newChild = child then Inr (PackedNode bitmap children, n')
                     else Inr (PackedNode bitmap (cloneAndSet children childIndex (Some newChild)), n')))
         else
           (case alterValue NO_VALUE n of
              (REMOVE, n') \<Rightarrow> Inr (PackedNode bitmap children, n')
            | (INSERT v, n') \<Rightarrow>
                if length children \<ge> MAX_CHILDREN_IN_PACKED_NODE then
                  Inr (ArrayNode (int (length children) + 1)
                         (promoteLoop 0 0 bitmap children
                            (js_assign (replicate 32 None) fragment (Some (LeafNode keyHash key v)))),
                       n')
                else
                  Inr (PackedNode (bitmap OR mask)
                         (cloneAndInsert children childIndex (Some (LeafNode keyHash key v))),
                       n')))"
| "alterArrayNode shift nodeSize children keyHash key alterValue n =
     (let childIndex = hashFragment shift keyHash in
      case js_index children childIndex of
        None \<Rightarrow>
          (case alterValue NO_VALUE n of
             (REMOVE, n') \<Rightarrow> Inr (ArrayNode nodeSize children, n')
           | (INSERT v, n') \<Rightarrow>
               Inr (ArrayNode (nodeSize + 1)
                      (cloneAndSet children childIndex (Some (LeafNode keyHash key v))),
                    n'))
      | Some child \<Rightarrow>
          (case alter (shift + FRAGMENT_SIZE) child key keyHash alterValue n of
             Inl e \<Rightarrow> Inl e
           | Inr (newChild, n') \<Rightarrow>
               if newChild = child then Inr (ArrayNode nodeSize children, n')
               else if newChild = EMPTY_NODE then
                 (if nodeSize = 1 then Inr (EMPTY_NODE, n')
                  else Inr (ArrayNode nodeSize (cloneAndSet children childIndex None), n'))
               else Inr (ArrayNode nodeSize (cloneAndSet children childIndex (Some newChild)), n')))"
  by pat_completeness auto
termination
proof (relation "measure (\<lambda>x. case x of
          Inl (shift, node, rest) \<Rightarrow> 2 * size node + 1
        | Inr (Inl (shift, bitmap, children, rest)) \<Rightarrow>
            2 * Suc (size_list (size_option size) children)
        | Inr (Inr (shift, sz, children, rest)) \<Rightarrow>
            2 * Suc (size_list (size_option size) children))", goal_cases)
  case 1
  show ?case by simp
next
  case 2
  show ?case by simp
next
  case 3
  show ?case by simp
next
  case (4 shift bitmap children keyHash key alterValue n fragment mask childIndex child)
  from js_index_size [OF 4(5)] show ?case by simp
next
  case (5 shift sz children keyHash key alterValue n childIndex child)
  from js_index_size [OF 5(2)] show ?case by simp
qed

section \<open>Lookup\<close>

text \<open>
  The loop over the entries of a collision node in \<^verbatim>\<open>find\<close>: \<open>None\<close> is
  \<^verbatim>\<open>NOT_FOUND\<close>, \<open>Some v\<close> the object \<^verbatim>\<open>{ value: v }\<close>.
\<close>

fun findInPairs :: "'k \<Rightarrow> ('k, 'v) pair list \<Rightarrow> error + 'v option" where
  "findInPairs key [] = Inr None"
| "findInPairs key (p # pairs) =
     (case destructure p of
        Inl e \<Rightarrow> Inl e
      | Inr (conflictingKey, v) \<Rightarrow>
          if isEqual key conflictingKey then Inr (Some v) else findInPairs key pairs)"

text \<open>
  The \<^verbatim>\<open>while (true)\<close> of \<^verbatim>\<open>find\<close>, one call for each turn of the loop: the variables
  \<^verbatim>\<open>shift\<close> and \<^verbatim>\<open>node\<close> are its arguments. A child read from an interior node is
  tested for a leaf with the key at once; any other child is the node of the next turn,
  and \<^verbatim>\<open>undefined\<close> read from a packed node throws at \<^verbatim>\<open>node.type\<close>.
\<close>

function findLoop :: "nat \<Rightarrow> int32 \<Rightarrow> 'k \<Rightarrow> ('k, 'v) node \<Rightarrow> error + 'v option" where
  "findLoop shift keyHash key EMPTY_NODE = Inr None"
| "findLoop shift keyHash key (ArrayNode nodeSize children) =
     (let fragment = hashFragment shift keyHash in
      case js_index children fragment of
        None \<Rightarrow> Inr None
      | Some EMPTY_NODE \<Rightarrow> Inr None
      | Some (LeafNode h k v) \<Rightarrow>
          if isEqual key k then Inr (Some v)
          else findLoop (shift + FRAGMENT_SIZE) keyHash key (LeafNode h k v)
      | Some child \<Rightarrow> findLoop (shift + FRAGMENT_SIZE) keyHash key child)"
| "findLoop shift keyHash key (PackedNode bitmap children) =
     (let mask = push_bit (hashFragment shift keyHash mod 32) (1 :: int32) in
      if bitmap AND mask = 0 then Inr None
      else
        (let childIndex = popCount (bitmap AND (mask - 1)) in
         case js_index children childIndex of
           None \<Rightarrow> Inl TypeError
         | Some EMPTY_NODE \<Rightarrow> Inr None
         | Some (LeafNode h k v) \<Rightarrow>
             if isEqual key k then Inr (Some v)
             else findLoop (shift + FRAGMENT_SIZE) keyHash key (LeafNode h k v)
         | Some child \<Rightarrow> findLoop (shift + FRAGMENT_SIZE) keyHash key child))"
| "findLoop shift keyHash key (CollisionNode hash pairs) =
     (if keyHash \<noteq> hash then Inr None else findInPairs key pairs)"
| "findLoop shift keyHash key (LeafNode hash nodeKey nodeValue) =
     (if isEqual key nodeKey then Inr (Some nodeValue) else Inr None)"
  by pat_completeness auto
termination
  by (relation "measure (\<lambda>(shift, keyHash, key, node). size node)")
    (auto dest!: js_index_size)

text \<open>
  \<^verbatim>\<open>find(node, key)\<close>. The hash function \<^verbatim>\<open>getHash\<close> of the key type is an argument
  of every operation that hashes a key. The trie is modelled for keys whose hash is an
  int32, which is what \<^verbatim>\<open>getHash\<close> returns for every value but an object whose
  \<^verbatim>\<open>hashCode\<close> returns another number.
\<close>

definition find_node :: "('k \<Rightarrow> int32) \<Rightarrow> ('k, 'v) node \<Rightarrow> 'k \<Rightarrow> error + 'v option" where
  "find_node getHash node key = findLoop 0 (getHash key) key node"

section \<open>The public operations\<close>

record ('k, 'v) dict =
  root :: "('k, 'v) node"
  size_field :: int

text \<open>The result type of Gleam: \<^verbatim>\<open>new Ok(v)\<close> and \<^verbatim>\<open>new Error()\<close>.\<close>

datatype 'v result = Ok 'v | Error

definition empty_dict :: "('k, 'v) dict" where
  "empty_dict = \<lparr>root = EMPTY_NODE, size_field = 0\<rparr>"

definition size_dict :: "('k, 'v) dict \<Rightarrow> int" where
  "size_dict dict = size_field dict"

definition set_dict ::
  "('k \<Rightarrow> int32) \<Rightarrow> ('k, 'v) dict \<Rightarrow> 'k \<Rightarrow> 'v \<Rightarrow> error + ('k, 'v) dict"
where
  "set_dict getHash dict key v =
     (case alter 0 (root dict) key (getHash key)
             (\<lambda>arg new_size. (INSERT v, if arg = NO_VALUE then new_size + 1 else new_size))
             (size_field dict) of
        Inl e \<Rightarrow> Inl e
      | Inr (new_root, new_size) \<Rightarrow> Inr \<lparr>root = new_root, size_field = new_size\<rparr>)"

definition remove ::
  "('k \<Rightarrow> int32) \<Rightarrow> ('k, 'v) dict \<Rightarrow> 'k \<Rightarrow> error + ('k, 'v) dict"
where
  "remove getHash dict key =
     (case alter 0 (root dict) key (getHash key)
             (\<lambda>arg new_size. (REMOVE, if arg \<noteq> NO_VALUE then new_size - 1 else new_size))
             (size_field dict) of
        Inl e \<Rightarrow> Inl e
      | Inr (new_root, new_size) \<Rightarrow> Inr \<lparr>root = new_root, size_field = new_size\<rparr>)"

definition hasKey :: "('k \<Rightarrow> int32) \<Rightarrow> ('k, 'v) dict \<Rightarrow> 'k \<Rightarrow> error + bool" where
  "hasKey getHash dict key =
     (case find_node getHash (root dict) key of
        Inl e \<Rightarrow> Inl e
      | Inr found \<Rightarrow> Inr (found \<noteq> None))"

definition get :: "('k \<Rightarrow> int32) \<Rightarrow> ('k, 'v) dict \<Rightarrow> 'k \<Rightarrow> error + 'v result" where
  "get getHash dict key =
     (case find_node getHash (root dict) key of
        Inl e \<Rightarrow> Inl e
      | Inr None \<Rightarrow> Inr Error
      | Inr (Some v) \<Rightarrow> Inr (Ok v))"

section \<open>Hashing\<close>

text \<open>
  A JavaScript string is a sequence of UTF-16 code units: \<^verbatim>\<open>string.length\<close> counts
  them and \<^verbatim>\<open>string.charCodeAt(i)\<close> reads one.
\<close>

type_synonym jsstring = "16 word list"

text \<open>
  The loop of \<^verbatim>\<open>hashString\<close> from index \<open>i\<close>. \<^verbatim>\<open>Math.imul\<close> multiplies modulo
  \<open>2 ^ 32\<close>, and \<^verbatim>\<open>| 0\<close> brings the sum back to 32 bits.
\<close>

function hashStringLoop :: "jsstring \<Rightarrow> nat \<Rightarrow> int32 \<Rightarrow> int32" where
  "hashStringLoop string i hash =
     (if i < length string then hashStringLoop string (Suc i) (31 * hash + ucast (string ! i))
      else hash)"
  by pat_completeness auto
termination
  by (relation "measure (\<lambda>(string, i, hash). length string - i)") auto

declare hashStringLoop.simps [simp del]

definition hashString :: "jsstring \<Rightarrow> int32" where
  "hashString string = hashStringLoop string 0 0"

text \<open>
  A JavaScript number is an IEEE-754 double. A number that is an int32 is kept by its 32
  bits, any other number by the 64 bits of the double: the results of the bitwise
  operators are of the first kind, what a user's \<^verbatim>\<open>hashCode\<close> returns may be of either.
\<close>

datatype jsnum = Int32 int32 | OtherNumber "64 word"

text \<open>The biased exponent and the fraction of a double.\<close>

definition float64_exponent :: "64 word \<Rightarrow> nat" where
  "float64_exponent d = unat (drop_bit 52 d AND 0x7FF)"

definition float64_fraction :: "64 word \<Rightarrow> nat" where
  "float64_fraction d = unat (take_bit 52 d)"


text \<open>
  ToInt32 of a double: 0 for NaN, the infinities and every magnitude below 1; otherwise
  the magnitude \<open>(2 ^ 52 + m) * 2 ^ (e - 1075)\<close> truncated, signed, modulo \<open>2 ^ 32\<close>.
\<close>

definition float64_toInt32 :: "64 word \<Rightarrow> int32" where
  "float64_toInt32 d =
     (let e = float64_exponent d; m = float64_fraction d;
          magnitude = (if e = 2047 \<or> e = 0 then 0
                       else if 1075 \<le> e then (2 ^ 52 + m) * 2 ^ (e - 1075)
                       else (2 ^ 52 + m) div 2 ^ (1075 - e))
      in if bit d 63 then - of_nat magnitude else of_nat magnitude)"


definition toInt32 :: "jsnum \<Rightarrow> int32" where
  "toInt32 x = (case x of Int32 w \<Rightarrow> w | OtherNumber d \<Rightarrow> float64_toInt32 d)"

text \<open>
  The addition of doubles rounds, and is not modelled: \<open>fadd d i\<close> stands for the double
  that JavaScript computes for \<open>d + i\<close>, and is an argument of the hash functions.
  \<open>addToInt32 fadd x is\<close> is \<^verbatim>\<open>(x + i1 + ... + in) | 0\<close>: on an int32 the sums here are
  exact (below \<open>2 ^ 53\<close>), and ToInt32 takes them modulo \<open>2 ^ 32\<close>.
\<close>

type_synonym fadd = "64 word \<Rightarrow> int \<Rightarrow> 64 word"

definition addToInt32 :: "fadd \<Rightarrow> jsnum \<Rightarrow> int list \<Rightarrow> int32" where
  "addToInt32 fadd x is =
     (case x of
        Int32 w \<Rightarrow> w + of_int (sum_list is)
      | OtherNumber d \<Rightarrow> float64_toInt32 (foldl fadd d is))"

text \<open>The double of a natural number below \<open>2 ^ 53\<close>, for the elements of a byte array.\<close>

fun bitLength :: "nat \<Rightarrow> nat" where
  "bitLength n = (if n = 0 then 0 else Suc (bitLength (n div 2)))"

definition float64_of_nat :: "nat \<Rightarrow> 64 word" where
  "float64_of_nat n =
     (if n = 0 then 0
      else (let e = bitLength n - 1 in
            push_bit 52 (of_nat (1023 + e)) OR of_nat ((n - 2 ^ e) * 2 ^ (52 - e))))"

text \<open>
  What the prototype's \<^verbatim>\<open>hashCode\<close> does when \<^verbatim>\<open>hashObject\<close> calls it: there is none
  (or the prototype is null), it returns a number, it returns something else, or it
  throws. User code that does not return is not modelled.
\<close>

datatype hashCode =
    NoHashCode
  | HashCodeNumber jsnum
  | HashCodeOther
  | HashCodeThrows

text \<open>
  What \<^verbatim>\<open>hashByReference\<close> is called on. An object, a function, and a symbol made by
  \<^verbatim>\<open>Symbol()\<close> (or a well-known one) are known by their identity, a natural number. A
  symbol of the global registry, made by \<^verbatim>\<open>Symbol.for(key)\<close>, is known by its key, and
  is the one kind of value here that a WeakMap cannot hold (ECMAScript 2023,
  CanBeHeldWeakly; before it a WeakMap held no symbol at all).
\<close>

datatype reference =
    Identity nat
  | RegisteredSymbol jsstring

text \<open>
  The values \<^verbatim>\<open>getHash\<close> tells apart. A \<open>JSet\<close> and a \<open>JMap\<close> list their elements in
  the order of \<^verbatim>\<open>forEach\<close>, a \<open>JRecord\<close> its own enumerable keys in the order of
  \<^verbatim>\<open>Object.keys\<close>; a date is its \<^verbatim>\<open>getTime()\<close>.
\<close>

datatype jsval =
    JNull
  | JUndefined
  | JBool bool
  | JNumber "64 word"
  | JString jsstring
  | JBigInt int
  | JSymbol reference
  | JFunction nat
  | JObject hashCode jsobject
and jsobject =
    JPromise nat
  | JWeakSet nat
  | JWeakMap nat
  | JDate "64 word"
  | JArrayBuffer "8 word list"
  | JUint8Array "8 word list"
  | JArray "jsval list"
  | JSet "jsval list"
  | JMap "(jsval \<times> jsval) list"
  | JRecord "(jsstring \<times> jsval) list"

text \<open>The module state: \<^verbatim>\<open>referenceUid\<close> and the weak map \<^verbatim>\<open>referenceMap\<close>.\<close>

record hstate =
  referenceUid :: int32
  referenceMap :: "nat \<Rightarrow> int32 option"

text \<open>
  \<^verbatim>\<open>referenceMap.get\<close> gives \<^verbatim>\<open>undefined\<close> for a key that the map cannot hold, so a
  registered symbol takes a new identifier, and \<^verbatim>\<open>referenceMap.set\<close> then throws a
  TypeError: the identifier is spent and the exception leaves \<^verbatim>\<open>hashByReference\<close>.
\<close>

definition hashByReference :: "reference \<Rightarrow> hstate \<Rightarrow> (error + int32) \<times> hstate" where
  "hashByReference object st =
     (case (case object of Identity r \<Rightarrow> referenceMap st r | RegisteredSymbol key \<Rightarrow> None) of
        Some known \<Rightarrow> (Inr known, st)
      | None \<Rightarrow>
          (let hash = referenceUid st;
               uid = referenceUid st + 1;
               uid' = (if uid = 0x7fffffff then 0 else uid)
           in case object of
                Identity r \<Rightarrow>
                  (Inr hash, st\<lparr>referenceUid := uid', referenceMap := (referenceMap st)(r \<mapsto> hash)\<rparr>)
              | RegisteredSymbol key \<Rightarrow> (Inl TypeError, st\<lparr>referenceUid := uid'\<rparr>)))"

text \<open>
  \<^verbatim>\<open>(one ^ (other + 0x9e3779b9 + (one << 6) + (one >> 2))) | 0\<close>: the bitwise operators
  read \<open>one\<close> through ToInt32, the sum starts from \<open>other\<close>.
\<close>

definition hashMerge :: "fadd \<Rightarrow> jsnum \<Rightarrow> jsnum \<Rightarrow> int32" where
  "hashMerge fadd one other =
     (let one32 = toInt32 one in
      one32 XOR addToInt32 fadd other
                  [0x9e3779b9, sint (push_bit 6 one32), sint (signed_drop_bit 2 one32)])"

text \<open>
  \<^verbatim>\<open>hashNumber\<close> writes the double into a buffer, big-endian, and reads the high half
  \<open>i\<close> and the low half \<open>j\<close> as int32.
\<close>

definition hashNumber :: "64 word \<Rightarrow> int32" where
  "hashNumber number =
     (let i = (ucast (drop_bit 32 number) :: int32);
          j = (ucast number :: int32)
      in (0x45d9f3b * (signed_drop_bit 16 i XOR i)) XOR j)"

text \<open>\<^verbatim>\<open>number.toString()\<close> of a BigInt: the decimal digits, after a minus sign if negative.\<close>

fun decimalDigits :: "nat \<Rightarrow> jsstring" where
  "decimalDigits n =
     (if n < 10 then [of_nat (48 + n)]
      else decimalDigits (n div 10) @ [of_nat (48 + n mod 10)])"

definition bigIntToString :: "int \<Rightarrow> jsstring" where
  "bigIntToString number =
     (if number < 0 then 0x2D # decimalDigits (nat (- number)) else decimalDigits (nat number))"

definition hashBigInt :: "int \<Rightarrow> int32" where
  "hashBigInt number = hashString (bigIntToString number)"

text \<open>
  The loop of \<^verbatim>\<open>hashObject\<close> over a \<^verbatim>\<open>Uint8Array\<close>: every element is a number, hashed
  by \<^verbatim>\<open>getHash\<close> with \<^verbatim>\<open>hashNumber\<close>.
\<close>

fun hashBytes :: "8 word list \<Rightarrow> int32 \<Rightarrow> int32" where
  "hashBytes [] hash = hash"
| "hashBytes (b # bytes) hash =
     hashBytes bytes (31 * hash + hashNumber (float64_of_nat (unat b)))"

text \<open>
  \<^verbatim>\<open>getHash\<close> and \<^verbatim>\<open>hashObject\<close>, with the four loops of \<^verbatim>\<open>hashObject\<close> that call
  \<^verbatim>\<open>getHash\<close> on the parts of a value. Each takes the module state and returns it, with
  the hash or with the exception that ended the call: an exception of \<^verbatim>\<open>getHash\<close> on a
  part leaves the loop and \<^verbatim>\<open>hashObject\<close>, which catches nothing but what its call of
  \<^verbatim>\<open>hashCode\<close> throws. The two functions call each other as deep as the value is
  nested, and the call stack of an engine is finite: \<open>stack\<close> is the number of nested
  calls of \<^verbatim>\<open>getHash\<close> and \<^verbatim>\<open>hashObject\<close> that it has room for, and a call beyond it
  throws a RangeError. The calls that do not recurse are taken to fit.
\<close>

function (sequential) getHash :: "fadd \<Rightarrow> nat \<Rightarrow> jsval \<Rightarrow> hstate \<Rightarrow> (error + jsnum) \<times> hstate"
  and hashObject :: "fadd \<Rightarrow> nat \<Rightarrow> hashCode \<Rightarrow> jsobject \<Rightarrow> hstate \<Rightarrow> (error + jsnum) \<times> hstate"
  and hashDefault :: "fadd \<Rightarrow> nat \<Rightarrow> jsobject \<Rightarrow> hstate \<Rightarrow> (error + jsnum) \<times> hstate"
  and hashArrayLoop :: "fadd \<Rightarrow> nat \<Rightarrow> jsval list \<Rightarrow> int32 \<Rightarrow> hstate \<Rightarrow> (error + int32) \<times> hstate"
  and hashSetLoop :: "fadd \<Rightarrow> nat \<Rightarrow> jsval list \<Rightarrow> int32 \<Rightarrow> hstate \<Rightarrow> (error + int32) \<times> hstate"
  and hashMapLoop ::
    "fadd \<Rightarrow> nat \<Rightarrow> (jsval \<times> jsval) list \<Rightarrow> int32 \<Rightarrow> hstate \<Rightarrow> (error + int32) \<times> hstate"
  and hashKeysLoop ::
    "fadd \<Rightarrow> nat \<Rightarrow> (jsstring \<times> jsval) list \<Rightarrow> int32 \<Rightarrow> hstate \<Rightarrow> (error + int32) \<times> hstate"
where
  "getHash fadd 0 v st = (Inl RangeError, st)"
| "getHash fadd (Suc stack) JNull st = (Inr (Int32 0x42108422), st)"
| "getHash fadd (Suc stack) JUndefined st = (Inr (Int32 0x42108423), st)"
| "getHash fadd (Suc stack) (JBool b) st = (Inr (Int32 (if b then 0x42108421 else 0x42108420)), st)"
| "getHash fadd (Suc stack) (JNumber number) st = (Inr (Int32 (hashNumber number)), st)"
| "getHash fadd (Suc stack) (JString string) st = (Inr (Int32 (hashString string)), st)"
| "getHash fadd (Suc stack) (JBigInt number) st = (Inr (Int32 (hashBigInt number)), st)"
| "getHash fadd (Suc stack) (JObject code object) st = hashObject fadd stack code object st"
| "getHash fadd (Suc stack) (JSymbol r) st =
     (case hashByReference r st of
        (Inl e, st') \<Rightarrow> (Inl e, st')
      | (Inr h, st') \<Rightarrow> (Inr (Int32 h), st'))"
| "getHash fadd (Suc stack) (JFunction r) st =
     (case hashByReference (Identity r) st of
        (Inl e, st') \<Rightarrow> (Inl e, st')
      | (Inr h, st') \<Rightarrow> (Inr (Int32 h), st'))"
| "hashObject fadd 0 code object st = (Inl RangeError, st)"
| "hashObject fadd (Suc stack) code object st =
     (case code of
        HashCodeNumber c \<Rightarrow> (Inr c, st)
      | _ \<Rightarrow> hashDefault fadd stack object st)"
| "hashDefault fadd stack (JPromise r) st =
     (case hashByReference (Identity r) st of
        (Inl e, st') \<Rightarrow> (Inl e, st')
      | (Inr h, st') \<Rightarrow> (Inr (Int32 h), st'))"
| "hashDefault fadd stack (JWeakSet r) st =
     (case hashByReference (Identity r) st of
        (Inl e, st') \<Rightarrow> (Inl e, st')
      | (Inr h, st') \<Rightarrow> (Inr (Int32 h), st'))"
| "hashDefault fadd stack (JWeakMap r) st =
     (case hashByReference (Identity r) st of
        (Inl e, st') \<Rightarrow> (Inl e, st')
      | (Inr h, st') \<Rightarrow> (Inr (Int32 h), st'))"
| "hashDefault fadd stack (JDate time) st = (Inr (Int32 (hashNumber time)), st)"
| "hashDefault fadd stack (JArrayBuffer bytes) st = (Inr (Int32 (hashBytes bytes 0)), st)"
| "hashDefault fadd stack (JUint8Array bytes) st = (Inr (Int32 (hashBytes bytes 0)), st)"
| "hashDefault fadd stack (JArray elements) st =
     (case hashArrayLoop fadd stack elements 0 st of
        (Inl e, st') \<Rightarrow> (Inl e, st')
      | (Inr h, st') \<Rightarrow> (Inr (Int32 h), st'))"
| "hashDefault fadd stack (JSet elements) st =
     (case hashSetLoop fadd stack elements 0 st of
        (Inl e, st') \<Rightarrow> (Inl e, st')
      | (Inr h, st') \<Rightarrow> (Inr (Int32 h), st'))"
| "hashDefault fadd stack (JMap entries) st =
     (case hashMapLoop fadd stack entries 0 st of
        (Inl e, st') \<Rightarrow> (Inl e, st')
      | (Inr h, st') \<Rightarrow> (Inr (Int32 h), st'))"
| "hashDefault fadd stack (JRecord props) st =
     (case hashKeysLoop fadd stack props 0 st of
        (Inl e, st') \<Rightarrow> (Inl e, st')
      | (Inr h, st') \<Rightarrow> (Inr (Int32 h), st'))"
| "hashArrayLoop fadd stack [] hash st = (Inr hash, st)"
| "hashArrayLoop fadd stack (x # xs) hash st =
     (case getHash fadd stack x st of
        (Inl e, st') \<Rightarrow> (Inl e, st')
      | (Inr h, st') \<Rightarrow> hashArrayLoop fadd stack xs (addToInt32 fadd h [sint (31 * hash)]) st')"
| "hashSetLoop fadd stack [] hash st = (Inr hash, st)"
| "hashSetLoop fadd stack (x # xs) hash st =
     (case getHash fadd stack x st of
        (Inl e, st') \<Rightarrow> (Inl e, st')
      | (Inr h, st') \<Rightarrow> hashSetLoop fadd stack xs (addToInt32 fadd h [sint hash]) st')"
| "hashMapLoop fadd stack [] hash st = (Inr hash, st)"
| "hashMapLoop fadd stack ((key, v) # entries) hash st =
     (case getHash fadd stack v st of
        (Inl e, st') \<Rightarrow> (Inl e, st')
      | (Inr hv, st') \<Rightarrow>
          (case getHash fadd stack key st' of
             (Inl e, st'') \<Rightarrow> (Inl e, st'')
           | (Inr hk, st'') \<Rightarrow> hashMapLoop fadd stack entries (hash + hashMerge fadd hv hk) st''))"
| "hashKeysLoop fadd stack [] hash st = (Inr hash, st)"
| "hashKeysLoop fadd stack ((key, v) # props) hash st =
     (case getHash fadd stack v st of
        (Inl e, st') \<Rightarrow> (Inl e, st')
      | (Inr hv, st') \<Rightarrow>
          hashKeysLoop fadd stack props (hash + hashMerge fadd hv (Int32 (hashString key))) st')"
  by pat_completeness auto
termination
  by (relation "measure (\<lambda>x. case x of
        Inl (Inl (fadd, stack, v, st)) \<Rightarrow> 2 * size v + 2
      | Inl (Inr (Inl (fadd, stack, code, object, st))) \<Rightarrow> 2 * size object + 1
      | Inl (Inr (Inr (fadd, stack, object, st))) \<Rightarrow> 2 * size object
      | Inr (Inl (Inl (fadd, stack, xs, hash, st))) \<Rightarrow> 2 * size_list size xs + 1
      | Inr (Inl (Inr (fadd, stack, xs, hash, st))) \<Rightarrow> 2 * size_list size xs + 1
      | Inr (Inr (Inl (fadd, stack, entries, hash, st))) \<Rightarrow>
          2 * size_list (size_prod size size) entries + 1
      | Inr (Inr (Inr (fadd, stack, props, hash, st))) \<Rightarrow>
          2 * size_list (size_prod (\<lambda>k. 0) size) props + 1)")
    auto

section \<open>What the claims speak of\<close>

text \<open>
  The number of packed levels at the top of a merged subtree: a packed node with a
  single child counts one level and goes on in the child, a packed node with any other
  children is the last level. Each call of \<^verbatim>\<open>mergeLeavesLoop\<close> builds one level.
\<close>

fun packedLevels :: "('k, 'v) node \<Rightarrow> nat" where
  "packedLevels (PackedNode bitmap [Some child]) = Suc (packedLevels child)"
| "packedLevels (PackedNode bitmap children) = 1"
| "packedLevels node = 0"

text \<open>\<^verbatim>\<open>x | 0\<close> on an integer: the signed 32-bit value congruent to it.\<close>

definition truncate32 :: "int \<Rightarrow> int" where
  "truncate32 x = (x + 2 ^ 31) mod 2 ^ 32 - 2 ^ 31"

text \<open>The spec's fold: \<^verbatim>\<open>h = 0; for c in cs: h = (31 * h + c) | 0\<close>.\<close>

definition multiplierFold :: "nat list \<Rightarrow> int" where
  "multiplierFold cs = foldl (\<lambda>h c. truncate32 (31 * h + int c)) 0 cs"

text \<open>
  The code points of a string, as the spec's words have it: a high surrogate followed by
  a low surrogate is one code point, any other code unit is one by itself.
\<close>

fun codePoints :: "jsstring \<Rightarrow> nat list" where
  "codePoints [] = []"
| "codePoints [c] = [unat c]"
| "codePoints (c # d # rest) =
     (if 0xD800 \<le> c \<and> c \<le> 0xDBFF \<and> 0xDC00 \<le> d \<and> d \<le> 0xDFFF
      then ((unat c - 0xD800) * 0x400 + (unat d - 0xDC00) + 0x10000) # codePoints rest
      else unat c # codePoints (d # rest))"

definition spec_hashString :: "jsstring \<Rightarrow> int" where
  "spec_hashString s = multiplierFold (codePoints s)"



text \<open>
  A sequence of \<^verbatim>\<open>insert\<close> and \<^verbatim>\<open>remove\<close> calls, each on the dict the call before it
  returned (the \<^verbatim>\<open>from_list\<close> of the test file folds \<^verbatim>\<open>insert\<close> in this way); an
  exception ends the sequence.
\<close>

datatype ('k, 'v) operation = Insert 'k 'v | Remove 'k

fun run :: "('k \<Rightarrow> int32) \<Rightarrow> ('k, 'v) operation list \<Rightarrow> ('k, 'v) dict \<Rightarrow> error + ('k, 'v) dict" where
  "run hashOf [] dict = Inr dict"
| "run hashOf (Insert key v # ops) dict =
     (case set_dict hashOf dict key v of Inl e \<Rightarrow> Inl e | Inr dict' \<Rightarrow> run hashOf ops dict')"
| "run hashOf (Remove key # ops) dict =
     (case remove hashOf dict key of Inl e \<Rightarrow> Inl e | Inr dict' \<Rightarrow> run hashOf ops dict')"

text \<open>
  The dict that holds the keys "Aa" and "BB", both of hash 2112; and the 17 keys of one
  letter, "a" to "q", whose hashes 97 to 113 have 17 different first fragments.
\<close>

definition collidingDict :: "(jsstring, nat) dict" where
  "collidingDict =
     \<lparr>root = CollisionNode 2112 [PairObject [0x42, 0x42] 2, PairObject [0x41, 0x61] 1],
      size_field = 2\<rparr>"

definition seventeenKeys :: "jsstring list" where
  "seventeenKeys = map (\<lambda>c. [c]) [0x61, 0x62, 0x63, 0x64, 0x65, 0x66, 0x67, 0x68, 0x69, 0x6A, 0x6B, 0x6C, 0x6D, 0x6E, 0x6F, 0x70, 0x71]"

text \<open>The number of slots of an array node that hold a node, and its field \<^verbatim>\<open>size\<close>.\<close>

fun occupiedSlots :: "('k, 'v) node \<Rightarrow> nat" where
  "occupiedSlots (ArrayNode nodeSize children) = length (filter (\<lambda>c. c \<noteq> None) children)"
| "occupiedSlots node = 0"

fun arraySize :: "('k, 'v) node \<Rightarrow> int" where
  "arraySize (ArrayNode nodeSize children) = nodeSize"
| "arraySize node = 0"

text \<open>
  The children of an interior node: the entries of its array that hold a node. The bits
  of a bitmap that are set.
\<close>

definition countChildren :: "'a option list \<Rightarrow> nat" where
  "countChildren children = length (filter (\<lambda>c. c \<noteq> None) children)"

definition bitCount :: "int32 \<Rightarrow> nat" where
  "bitCount bitmap = length (filter (bit bitmap) [0..<32])"

text \<open>
  One step of \<^verbatim>\<open>popCount\<close>, as \<^verbatim>\<open>(z & m) + ((z >>> w) & m)\<close>: the mask \<open>m\<close> selects every
  other field of \<open>w\<close> bits, and the step adds each field to its neighbour.
\<close>

definition pairSums :: "nat \<Rightarrow> int32 \<Rightarrow> int32 \<Rightarrow> int32" where
  "pairSums w m z = (z AND m) + (drop_bit w z AND m)"

text \<open>
  A subtree whose packed nodes are well formed: the array of children has no hole, it is
  as long as the bitmap has bits set, and it is not empty; no child of an interior node
  is the empty node.
\<close>

fun packedWellFormed :: "('k, 'v) node \<Rightarrow> bool" where
  "packedWellFormed (PackedNode bitmap children) =
     (1 \<le> length children \<and> length children = bitCount bitmap
      \<and> list_all (\<lambda>c. case c of None \<Rightarrow> False
                         | Some child \<Rightarrow> child \<noteq> EMPTY_NODE \<and> packedWellFormed child) children)"
| "packedWellFormed (ArrayNode nodeSize children) =
     list_all (\<lambda>c. case c of None \<Rightarrow> True
                       | Some child \<Rightarrow> child \<noteq> EMPTY_NODE \<and> packedWellFormed child) children"
| "packedWellFormed node = True"

text \<open>
  The claim on redundant interior nodes, read in the widest way: a packed node has at
  least two children, unless it is the root, or it has the shape that a merge gives a
  node when two fragments agree, a single child that is itself an interior node.
\<close>

fun interiorNode :: "('k, 'v) node \<Rightarrow> bool" where
  "interiorNode (PackedNode bitmap children) = True"
| "interiorNode (ArrayNode nodeSize children) = True"
| "interiorNode node = False"

fun noRedundantNode :: "('k, 'v) node \<Rightarrow> bool" where
  "noRedundantNode (PackedNode bitmap children) =
     ((2 \<le> countChildren children
         \<or> (case children of [Some child] \<Rightarrow> interiorNode child | _ \<Rightarrow> False))
      \<and> list_all (\<lambda>c. case c of None \<Rightarrow> True | Some child \<Rightarrow> noRedundantNode child) children)"
| "noRedundantNode (ArrayNode nodeSize children) =
     list_all (\<lambda>c. case c of None \<Rightarrow> True | Some child \<Rightarrow> noRedundantNode child) children"
| "noRedundantNode node = True"

definition noRedundantBelowRoot :: "('k, 'v) node \<Rightarrow> bool" where
  "noRedundantBelowRoot node =
     (case node of
        PackedNode bitmap children \<Rightarrow>
          list_all (\<lambda>c. case c of None \<Rightarrow> True | Some child \<Rightarrow> noRedundantNode child) children
      | _ \<Rightarrow> noRedundantNode node)"

text \<open>A leaf or a collision node; a sequence of calls that are all \<^verbatim>\<open>insert\<close>.\<close>

fun terminalNode :: "('k, 'v) node \<Rightarrow> bool" where
  "terminalNode (LeafNode hash key v) = True"
| "terminalNode (CollisionNode hash pairs) = True"
| "terminalNode node = False"

fun insertsOnly :: "('k, 'v) operation list \<Rightarrow> bool" where
  "insertsOnly [] = True"
| "insertsOnly (Insert key v # ops) = insertsOnly ops"
| "insertsOnly (Remove key # ops) = False"

text \<open>
  The dict after inserting "A", "a" and "b" and removing "a": "A" (65) and "a" (97) share
  the first fragment 1 and were merged under a packed node, which now holds "A" alone.
\<close>

definition singleChildDict :: "(jsstring, nat) dict" where
  "singleChildDict =
     \<lparr>root = PackedNode 6 [Some (PackedNode 4 [Some (LeafNode 65 [0x41] 1)]),
                           Some (LeafNode 98 [0x62] 3)],
      size_field = 2\<rparr>"

text \<open>
  The dict after inserting "A", "a" and "b": "A" and "a" are the two children of a packed
  node below the root (their second fragments are 2 and 3).
\<close>

definition threeKeysDict :: "(jsstring, nat) dict" where
  "threeKeysDict =
     \<lparr>root = PackedNode 6 [Some (PackedNode 12 [Some (LeafNode 65 [0x41] 1),
                                                  Some (LeafNode 97 [0x61] 2)]),
                           Some (LeafNode 98 [0x62] 3)],
      size_field = 3\<rparr>"

text \<open>
  What \<^verbatim>\<open>alterValue\<close> is called with when \<^verbatim>\<open>find\<close> gives \<open>found\<close> for the key.
\<close>

definition argOf :: "'v option \<Rightarrow> 'v arg" where
  "argOf found = (case found of None \<Rightarrow> NO_VALUE | Some v \<Rightarrow> VALUE v)"

text \<open>
  A subtree without collision nodes in which every leaf holds the hash of its key.
\<close>

fun hashedLeaves :: "('k \<Rightarrow> int32) \<Rightarrow> ('k, 'v) node \<Rightarrow> bool" where
  "hashedLeaves hashOf EMPTY_NODE = True"
| "hashedLeaves hashOf (LeafNode hash key v) = (hash = hashOf key)"
| "hashedLeaves hashOf (CollisionNode hash pairs) = False"
| "hashedLeaves hashOf (PackedNode bitmap children) =
     list_all (\<lambda>c. case c of None \<Rightarrow> True | Some child \<Rightarrow> hashedLeaves hashOf child) children"
| "hashedLeaves hashOf (ArrayNode nodeSize children) =
     list_all (\<lambda>c. case c of None \<Rightarrow> True | Some child \<Rightarrow> hashedLeaves hashOf child) children"

text \<open>A predicate holds for every child of an interior node.\<close>

abbreviation (input) childrenAll :: "(('k, 'v) node \<Rightarrow> bool) \<Rightarrow> ('k, 'v) node option list \<Rightarrow> bool" where
  "childrenAll P cs \<equiv> list_all (\<lambda>c. case c of None \<Rightarrow> True | Some child \<Rightarrow> P child) cs"

section \<open>Lookup and membership\<close>

text \<open>
  C9. For every dict and key, \<^verbatim>\<open>hasKey\<close> returns true if and only if \<^verbatim>\<open>get\<close> returns
  \<^verbatim>\<open>Ok(v)\<close> for some value: both read the answer of the same \<^verbatim>\<open>find\<close>, and where
  \<^verbatim>\<open>find\<close> throws neither returns.
\<close>

theorem hasKey_iff_get:
  "hasKey hashOf m k = Inr True \<longleftrightarrow> (\<exists>v. get hashOf m k = Inr (Ok v))"
  by (auto simp: hasKey_def get_def split: sum.splits option.splits)

section \<open>The merge of two terminal nodes returns\<close>

lemma fragment_bit:
  assumes "hashFragment (5 * d) a = hashFragment (5 * d) b" and "d < 7" and "j < 5"
  shows "bit a (5 * d + j) = bit b (5 * d + j)"
proof -
  from \<open>d < 7\<close> have m: "(5 * d) mod 32 = 5 * d" by simp
  have M: "MASK = mask 5"
    by (simp add: MASK_def BUCKET_SIZE_def FRAGMENT_SIZE_def mask_eq_exp_minus_1)
  from assms(1) have "drop_bit (5 * d) a AND mask 5 = drop_bit (5 * d) b AND (mask 5 :: int32)"
    by (simp add: hashFragment_def m M word_unat_eq_iff)
  then have "bit (drop_bit (5 * d) a AND mask 5) j = bit (drop_bit (5 * d) b AND (mask 5 :: int32)) j"
    by simp
  with \<open>j < 5\<close> \<open>d < 7\<close> show ?thesis
    by (simp add: bit_and_iff bit_drop_bit_eq bit_mask_iff)
qed

lemma distinct_hashes_differ:
  assumes "a \<noteq> (b :: int32)"
  shows "\<exists>d<7. hashFragment (5 * d) a \<noteq> hashFragment (5 * d) b"
proof (rule ccontr)
  assume "\<not> ?thesis"
  then have eq: "hashFragment (5 * d) a = hashFragment (5 * d) b" if "d < 7" for d
    using that by blast
  have "bit a n = bit b n" if "n < 32" for n
  proof -
    have "n div 5 < 7" "n mod 5 < 5" using that by auto
    from fragment_bit [OF eq [OF this(1)] this] show ?thesis by simp
  qed
  then have "a = b"
    by (intro bit_word_eqI) simp
  with assms show False by simp
qed

lemma mergeLeavesLoop_returns:
  "hashFragment (shift + 5 * k) hashA \<noteq> hashFragment (shift + 5 * k) hashB \<Longrightarrow>
   \<exists>merged. mergeLeavesLoop shift hashA a hashB b = Some merged \<and> packedLevels merged \<le> Suc k"
proof (induction k arbitrary: shift)
  case 0
  then show ?case
    by (subst mergeLeavesLoop.simps) (simp add: Let_def)
next
  case (Suc k)
  show ?case
  proof (cases "hashFragment shift hashA = hashFragment shift hashB")
    case False
    then show ?thesis
      by (subst mergeLeavesLoop.simps) (simp add: Let_def)
  next
    case True
    from Suc.prems have "hashFragment (shift + FRAGMENT_SIZE + 5 * k) hashA
        \<noteq> hashFragment (shift + FRAGMENT_SIZE + 5 * k) hashB"
      by (simp add: FRAGMENT_SIZE_def add.assoc)
    from Suc.IH [OF this] obtain child where
      c: "mergeLeavesLoop (shift + FRAGMENT_SIZE) hashA a hashB b = Some child"
         "packedLevels child \<le> Suc k"
      by blast
    with True show ?thesis
      by (subst mergeLeavesLoop.simps) (simp add: Let_def)
  qed
qed

text \<open>
  C6. For two distinct 32-bit hashes, \<^verbatim>\<open>mergeLeaves\<close> at shift 0 returns, the subtree it
  builds has at most 7 packed levels (one for each call of \<^verbatim>\<open>mergeLeavesLoop\<close>), and
  the two hashes differ in the fragment at one of the shifts 0, 5, ..., 30.
\<close>

theorem mergeLeaves_bounded:
  assumes "hashA \<noteq> hashB"
  shows "\<exists>merged. mergeLeaves 0 hashA a hashB b = Inr merged \<and> packedLevels merged \<le> 7
           \<and> (\<exists>d<7. hashFragment (5 * d) hashA \<noteq> hashFragment (5 * d) hashB)"
proof -
  from distinct_hashes_differ [OF assms] obtain d where
    d: "d < 7" "hashFragment (5 * d) hashA \<noteq> hashFragment (5 * d) hashB"
    by blast
  from d(2) have "hashFragment (0 + 5 * d) hashA \<noteq> hashFragment (0 + 5 * d) hashB"
    by simp
  from mergeLeavesLoop_returns [OF this] obtain merged where
    m: "mergeLeavesLoop 0 hashA a hashB b = Some merged" "packedLevels merged \<le> Suc d"
    by blast
  from m(2) d(1) have "packedLevels merged \<le> 7" by simp
  with m(1) d assms show ?thesis by (auto simp: mergeLeaves_def)
qed

text \<open>
  Witness of C6: the hashes 0 and \<open>2 ^ 30\<close> differ in the last fragment only.
\<close>

theorem mergeLeaves_bounded_witness:
  "(0 :: int32) \<noteq> 0x40000000
   \<and> (\<exists>merged. mergeLeaves 0 0 (LeafNode 0 [0x61 :: 16 word] (1 :: nat))
                    0x40000000 (LeafNode 0x40000000 [0x62] 2) = Inr merged
          \<and> packedLevels merged \<le> 7
          \<and> (\<exists>d<7. hashFragment (5 * d) 0 \<noteq> hashFragment (5 * d) 0x40000000))"
proof -
  have h: "(0 :: int32) \<noteq> 0x40000000" by simp
  from mergeLeaves_bounded [OF h] show ?thesis using h by blast
qed

section \<open>The hash of a string\<close>

lemma mul31_add_word: "(31 * h + ucast (c :: 16 word) :: int32) = word_of_int (31 * sint h + uint c)"
  by simp

lemma sint_word_of_int_truncate32: "sint (word_of_int x :: int32) = truncate32 x"
  by (simp add: sint_sbintrunc' signed_take_bit_eq_take_bit_shift take_bit_eq_mod truncate32_def)

lemma sint_step: "sint (31 * h + ucast (c :: 16 word) :: int32) = truncate32 (31 * sint h + int (unat c))"
  by (simp only: mul31_add_word sint_word_of_int_truncate32) simp

lemma hashStringLoop_fold:
  "sint (hashStringLoop s i h) =
     foldl (\<lambda>h c. truncate32 (31 * h + int c)) (sint h) (drop i (map unat s))"
proof (induction s i h rule: hashStringLoop.induct)
  case (1 string i hash)
  show ?case
  proof (cases "i < length string")
    case True
    then have "drop i (map unat string) = unat (string ! i) # drop (Suc i) (map unat string)"
      using Cons_nth_drop_Suc [of i "map unat string"] by simp
    with True 1 show ?thesis
      by (subst hashStringLoop.simps) (simp add: sint_step)
  next
    case False
    then show ?thesis
      by (subst hashStringLoop.simps) simp
  qed
qed

text \<open>
  C8, as amended. For every string, \<^verbatim>\<open>hashString\<close> is the 31-multiplier fold over the
  UTF-16 code units of the string (what \<^verbatim>\<open>charCodeAt\<close> reads), with the arithmetic
  truncated to signed 32 bits.
\<close>

theorem hashString_code_units: "sint (hashString s) = multiplierFold (map unat s)"
  by (simp add: hashString_def multiplierFold_def hashStringLoop_fold)

text \<open>
  Counterexample to C8 as stated: the string of the one code point U+1F600 is the
  surrogate pair D83D DE00; the code folds over the two code units, the spec over the
  code point.
\<close>

theorem hashString_code_points_counterexample:
  "sint (hashString [0xD83D, 0xDE00]) \<noteq> spec_hashString [0xD83D, 0xDE00]"
  by (simp add: hashString_def hashStringLoop.simps spec_hashString_def multiplierFold_def
      truncate32_def)

text \<open>
  On a string without a high surrogate the code points are the code units, and the two
  folds agree.
\<close>

lemma codePoints_code_units:
  "\<forall>c\<in>set s. \<not> (0xD800 \<le> c \<and> c \<le> 0xDBFF) \<Longrightarrow> codePoints s = map unat s"
  by (induction s rule: codePoints.induct) auto

lemma hashString_code_points_without_surrogates:
  assumes "\<forall>c\<in>set s. \<not> (0xD800 \<le> c \<and> c \<le> 0xDBFF)"
  shows "sint (hashString s) = spec_hashString s"
  using codePoints_code_units [OF assms]
  by (simp add: spec_hashString_def hashString_def multiplierFold_def hashStringLoop_fold)

section \<open>The hash of a value\<close>



lemma hashByReference_RegisteredSymbol:
  "fst (hashByReference (RegisteredSymbol key) st) = Inl TypeError"
  by (simp add: hashByReference_def Let_def)










text \<open>
  C10. The default hash of the empty string, an empty array, an empty byte buffer, an
  empty set, an empty map and a record without fields is 0, whatever the state and with
  room on the stack for the one call that a string takes and the two that an object
  takes; and the six values are pairwise distinct.
\<close>

theorem empty_values_hash_to_zero:
  "fst (getHash fadd (Suc stack) (JString []) st) = Inr (Int32 0)
   \<and> fst (getHash fadd (Suc (Suc stack)) (JObject NoHashCode (JArray [])) st) = Inr (Int32 0)
   \<and> fst (getHash fadd (Suc (Suc stack)) (JObject NoHashCode (JArrayBuffer [])) st) = Inr (Int32 0)
   \<and> fst (getHash fadd (Suc (Suc stack)) (JObject NoHashCode (JSet [])) st) = Inr (Int32 0)
   \<and> fst (getHash fadd (Suc (Suc stack)) (JObject NoHashCode (JMap [])) st) = Inr (Int32 0)
   \<and> fst (getHash fadd (Suc (Suc stack)) (JObject NoHashCode (JRecord [])) st) = Inr (Int32 0)
   \<and> distinct [JString [], JObject NoHashCode (JArray []), JObject NoHashCode (JArrayBuffer []),
         JObject NoHashCode (JSet []), JObject NoHashCode (JMap []), JObject NoHashCode (JRecord [])]"
  by (simp add: hashString_def hashStringLoop.simps)

section \<open>Two keys of one hash\<close>

text \<open>
  The definitions that the concrete runs below unfold. \<^verbatim>\<open>mergeLeavesLoop\<close> is unfolded
  at numeral shifts only.
\<close>

lemmas evaluation =
  set_dict_def remove_def get_def hasKey_def find_node_def empty_dict_def size_dict_def
  alterLeafNode_def alterCollisionNode_def mergeLeaves_def
  hashString_def hashStringLoop.simps hashFragment_def toMask_def popCount_def
  MASK_def BUCKET_SIZE_def FRAGMENT_SIZE_def MAX_CHILDREN_IN_PACKED_NODE_def
  js_index_def js_assign_def cloneAndSet_def cloneAndInsert_def toSpliced_def isEqual_def Let_def
  mergeLeavesLoop.simps [of 0] mergeLeavesLoop.simps [of "numeral n" for n]
  promoteLoop.simps

text \<open>
  C1 at a failing input. "Aa" and "BB" have the same hash: inserting "BB" after "Aa"
  builds a collision node whose entries are objects \<^verbatim>\<open>{ key, value }\<close>, and \<^verbatim>\<open>find\<close>
  destructures an entry as an array, so \<^verbatim>\<open>get\<close> of the key just inserted throws.
\<close>

theorem get_after_insert_throws:
  "run hashString [Insert [0x41, 0x61] 1] empty_dict
     = Inr \<lparr>root = LeafNode 2112 [0x41, 0x61] (1 :: nat), size_field = 1\<rparr>
   \<and> set_dict hashString \<lparr>root = LeafNode 2112 [0x41, 0x61] 1, size_field = 1\<rparr> [0x42, 0x42] 2
     = Inr collidingDict
   \<and> get hashString collidingDict [0x42, 0x42] = Inl TypeError"
  by (simp add: evaluation collidingDict_def)

text \<open>
  C2 at a failing input. On the dict of "Aa" and "BB" (size 2), inserting the present
  key "Aa", inserting the absent key "C#" of the same hash, and removing the present key
  "Aa" all throw in the loop of \<^verbatim>\<open>alterCollisionNode\<close>: no dict is returned whose size
  could be compared.
\<close>

theorem size_after_insert_and_remove_throws:
  "run hashString [Insert [0x41, 0x61] 1, Insert [0x42, 0x42] 2] empty_dict = Inr collidingDict
   \<and> size_dict collidingDict = 2
   \<and> set_dict hashString collidingDict [0x41, 0x61] 3 = Inl TypeError
   \<and> set_dict hashString collidingDict [0x43, 0x23] 3 = Inl TypeError
   \<and> remove hashString collidingDict [0x41, 0x61] = Inl TypeError"
  by (simp add: evaluation collidingDict_def)

text \<open>
  C7 at a failing input. "C#" has the hash 2112 of "Aa" and "BB" and is not in the dict;
  removing it throws instead of returning the dict.
\<close>

theorem remove_absent_throws:
  "run hashString [Insert [0x41, 0x61] 1, Insert [0x42, 0x42] 2] empty_dict = Inr collidingDict
   \<and> hashString [0x43, 0x23] = 2112
   \<and> remove hashString collidingDict [0x43, 0x23] = Inl TypeError"
  by (simp add: evaluation collidingDict_def)

section \<open>The size field of an array node\<close>

lemma replicate_32: "replicate 32 x = replicate 16 x @ replicate 16 x"
  by (simp flip: replicate_add)

lemma replicate_16:
  "replicate 16 x = [x, x, x, x, x, x, x, x, x, x, x, x, x, x, x, x]"
  by (simp add: eval_nat_numeral)

text \<open>
  The branch of \<^verbatim>\<open>alterArrayNode\<close> for a child that was emptied, on any array node:
  the slot is cleared and the size field is the one of the node.
\<close>

lemma alterArrayNode_keeps_size:
  assumes "js_index children (hashFragment shift keyHash) = Some child"
    and "alter (shift + FRAGMENT_SIZE) child key keyHash f n = Inr (EMPTY_NODE, n')"
    and "child \<noteq> EMPTY_NODE" and "nodeSize \<noteq> 1"
  shows "alterArrayNode shift nodeSize children keyHash key f n
           = Inr (ArrayNode nodeSize (cloneAndSet children (hashFragment shift keyHash) None), n')"
  using assms by (auto simp: Let_def)

text \<open>
  C3 at a failing input. Inserting 17 keys with different first fragments turns the root
  into an array node of size 17 with 17 occupied slots; removing one of the keys clears
  its slot and leaves the size field at 17.
\<close>

theorem array_size_after_remove:
  "\<exists>d d'. run hashString (map (\<lambda>k. Insert k (0 :: nat)) seventeenKeys) empty_dict = Inr d
     \<and> arraySize (root d) = 17 \<and> occupiedSlots (root d) = 17
     \<and> remove hashString d [0x61] = Inr d'
     \<and> arraySize (root d') = 17 \<and> occupiedSlots (root d') = 16"
  by (simp add: evaluation seventeenKeys_def replicate_32 replicate_16)

section \<open>Packed nodes and their bitmaps\<close>

lemma js_index_all:
  "js_index children i = Some child \<Longrightarrow> childrenAll P children \<Longrightarrow> P child"
  by (auto simp: js_index_def list_all_length split: if_splits)

lemma js_assign_all:
  "childrenAll P children \<Longrightarrow> (case v of None \<Rightarrow> True | Some child \<Rightarrow> P child) \<Longrightarrow>
   childrenAll P (js_assign children i v)"
  by (auto simp: js_assign_def list_all_iff dest: set_update_subset_insert [THEN subsetD])

lemma cloneAndInsert_all:
  "childrenAll P children \<Longrightarrow> P child \<Longrightarrow>
   childrenAll P (cloneAndInsert children i (Some child))"
  by (auto simp: cloneAndInsert_def list_all_iff dest: in_set_takeD in_set_dropD)

lemma toSpliced_all:
  "childrenAll P children \<Longrightarrow> childrenAll P (toSpliced children i)"
  by (auto simp: toSpliced_def list_all_iff dest: in_set_takeD in_set_dropD)

lemma promoteLoop_all:
  "childrenAll P nodeChildren \<Longrightarrow> childrenAll P children \<Longrightarrow>
   childrenAll P (promoteLoop i j bitmap nodeChildren children)"
proof (induction i j bitmap nodeChildren children rule: promoteLoop.induct)
  case (1 i j bitmap nodeChildren children)
  have s: "case js_index nodeChildren j of None \<Rightarrow> True | Some child \<Rightarrow> P child"
    using 1(3) by (auto simp: js_index_def list_all_length split: option.splits)
  show ?case
    using 1 s by (subst promoteLoop.simps) (auto intro!: js_assign_all)
qed

lemma countChildren_append:
  "countChildren (xs @ ys) = countChildren xs + countChildren ys"
  by (simp add: countChildren_def)

lemma countChildren_Cons:
  "countChildren (x # xs) = (if x = None then 0 else 1) + countChildren xs"
  by (simp add: countChildren_def)

lemma countChildren_Nil: "countChildren [] = 0"
  by (simp add: countChildren_def)

lemma countChildren_replicate_None: "countChildren (replicate k None) = 0"
  by (simp add: countChildren_def)

lemma countChildren_take_drop:
  "countChildren (take i children) + countChildren (drop i children) = countChildren children"
  using countChildren_append [of "take i children" "drop i children"] by simp

lemma countChildren_cloneAndInsert:
  "countChildren (cloneAndInsert children i (Some child)) = Suc (countChildren children)"
  by (simp add: cloneAndInsert_def countChildren_append countChildren_Cons countChildren_Nil
      countChildren_replicate_None countChildren_take_drop)

lemma countChildren_split:
  assumes "js_index children i = Some old"
  shows "countChildren children
           = Suc (countChildren (take i children) + countChildren (drop (Suc i) children))"
    and "i < length children"
proof -
  from assms show i: "i < length children"
    by (auto simp: js_index_def split: if_splits)
  from assms have n: "children ! i = Some old"
    by (auto simp: js_index_def split: if_splits)
  have "countChildren children
          = countChildren (take i children @ children ! i # drop (Suc i) children)"
    using id_take_nth_drop [OF i] by simp
  with n show "countChildren children
           = Suc (countChildren (take i children) + countChildren (drop (Suc i) children))"
    by (simp add: countChildren_append countChildren_Cons)
qed

lemma countChildren_cloneAndSet:
  assumes "js_index children i = Some old"
  shows "countChildren (cloneAndSet children i (Some child)) = countChildren children"
  using countChildren_split [OF assms]
  by (simp add: cloneAndSet_def js_assign_def upd_conv_take_nth_drop countChildren_append
      countChildren_Cons)

lemma countChildren_toSpliced:
  assumes "js_index children i = Some old"
  shows "Suc (countChildren (toSpliced children i)) = countChildren children"
  using countChildren_split [OF assms]
  by (simp add: toSpliced_def countChildren_append)

lemma bitCount_card: "bitCount bitmap = card {i. bit bitmap i}"
proof -
  have s: "set (filter (bit bitmap) [0..<32]) = {i. bit bitmap i}"
    by (auto dest: bit_imp_le_length)
  have "card (set (filter (bit bitmap) [0..<32])) = length (filter (bit bitmap) [0..<32])"
    by (rule distinct_card) simp
  then show ?thesis
    unfolding bitCount_def s by simp
qed

lemma bit_toMask: "bit (toMask f) i \<longleftrightarrow> i = f mod 32"
  by (auto simp: toMask_def bit_exp_iff possible_bit_word)

lemma and_toMask_zero: "bitmap AND toMask f = 0 \<longleftrightarrow> \<not> bit bitmap (f mod 32)"
proof
  assume "bitmap AND toMask f = 0"
  then have "\<not> bit (bitmap AND toMask f) (f mod 32)"
    by simp
  then show "\<not> bit bitmap (f mod 32)"
    by (simp add: bit_and_iff bit_toMask)
next
  assume "\<not> bit bitmap (f mod 32)"
  then show "bitmap AND toMask f = 0"
    by (intro bit_word_eqI) (auto simp: bit_and_iff bit_toMask)
qed

lemma finite_bits: "finite {i. bit (bitmap :: int32) i}"
  by (rule finite_subset [of _ "{..<32}"]) (auto dest: bit_imp_le_length)

lemma bitCount_or_toMask:
  "bitmap AND toMask f = 0 \<Longrightarrow> bitCount (bitmap OR toMask f) = Suc (bitCount bitmap)"
proof -
  assume "bitmap AND toMask f = 0"
  then have n: "f mod 32 \<notin> {i. bit bitmap i}"
    by (simp add: and_toMask_zero)
  have "{i. bit (bitmap OR toMask f) i} = insert (f mod 32) {i. bit bitmap i}"
    by (auto simp: bit_or_iff bit_toMask)
  with n show ?thesis
    by (simp add: bitCount_card finite_bits)
qed

lemma bitCount_xor_toMask:
  assumes "bitmap AND toMask f \<noteq> 0"
  shows "Suc (bitCount (bitmap XOR toMask f)) = bitCount bitmap"
proof -
  from assms have n: "f mod 32 \<in> {i. bit bitmap i}"
    by (simp add: and_toMask_zero)
  have "bit (bitmap XOR toMask f) i \<longleftrightarrow> bit bitmap i \<and> i \<noteq> f mod 32" for i
    using n by (cases "i = f mod 32") (simp_all add: bit_xor_iff bit_toMask)
  then have "{i. bit (bitmap XOR toMask f) i} = {i. bit bitmap i} - {f mod 32}"
    by blast
  then have "Suc (card {i. bit (bitmap XOR toMask f) i}) = card {i. bit bitmap i}"
    using card_Suc_Diff1 [OF finite_bits n] by simp
  then show ?thesis
    by (simp only: bitCount_card)
qed

lemma bitCount_pos: "bitmap \<noteq> 0 \<Longrightarrow> 1 \<le> bitCount bitmap"
proof -
  assume "bitmap \<noteq> 0"
  then obtain i where "bit bitmap i"
    by (auto simp: bit_eq_iff)
  then have "{i. bit bitmap i} \<noteq> {}" by auto
  then show ?thesis
    by (simp add: bitCount_card finite_bits Suc_le_eq card_gt_0_iff)
qed

lemma bitCount_two_masks:
  "bitCount (toMask f OR toMask g) = (if f mod 32 = g mod 32 then 1 else 2)"
proof -
  have "{i. bit (toMask f OR toMask g) i} = {f mod 32, g mod 32}"
    by (auto simp: bit_or_iff bit_toMask)
  then show ?thesis
    by (simp add: bitCount_card)
qed

lemma hashFragment_less: "hashFragment shift hash < 32"
proof -
  have "drop_bit (shift mod 32) hash AND MASK \<le> MASK"
    by (rule word_and_le1)
  then have "unat (drop_bit (shift mod 32) hash AND MASK) \<le> unat MASK"
    by (simp add: word_le_nat_alt)
  then show ?thesis
    by (simp add: hashFragment_def MASK_def BUCKET_SIZE_def FRAGMENT_SIZE_def)
qed

lemma bitCount_toMask: "bitCount (toMask f) = 1"
  using bitCount_two_masks [of f f] by simp

section \<open>What popCount counts\<close>

text \<open>
  \<^verbatim>\<open>popCount\<close> returns the number of bits set in its argument. Its first two steps add
  the bits of each nibble, and are followed nibble by nibble, on the 16 values of each of
  the 8 nibbles; the last three steps add the counts of the nibbles, and are followed on
  the number that the counts make. The arithmetic shift \<^verbatim>\<open>>>\<close> agrees with the logical
  one wherever the code uses it: under a mask that clears the sign, or on a word that is
  not negative.
\<close>

lemma signed_drop_bit_and:
  fixes y m :: int32
  assumes "take_bit (32 - k) m = m"
  shows "signed_drop_bit k y AND m = drop_bit k y AND m"
proof (rule bit_eqI)
  fix n
  have "bit m n \<Longrightarrow> n < 32 - k"
    using assms by (metis bit_take_bit_iff)
  then show "bit (signed_drop_bit k y AND m) n = bit (drop_bit k y AND m) n"
    by (cases "bit m n") (auto simp add: bit_and_iff bit_signed_drop_bit_iff bit_drop_bit_eq ac_simps)
qed

lemma signed_drop_bit_nonneg:
  fixes y :: int32
  assumes "unat y < 2 ^ 31"
  shows "signed_drop_bit k y = drop_bit k y"
proof -
  have "y AND mask 31 = y"
    using assms by (metis take_bit_eq_mask unsigned_less take_bit_nat_eq_self unsigned_take_bit_eq word_unat_eq_iff)
  then have n: "\<not> bit y 31"
    by (metis bit_and_iff bit_mask_iff less_irrefl)
  show ?thesis
  proof (rule bit_eqI)
    fix i
    show "bit (signed_drop_bit k y) i = bit (drop_bit k y) i"
    proof (cases "32 - k \<le> i \<and> i < 32")
      case True
      then have "32 \<le> k + i"
        by arith
      then have "\<not> bit y (k + i)"
        by (auto dest: bit_imp_le_length)
      with n True show ?thesis
        by (simp add: bit_signed_drop_bit_iff bit_drop_bit_eq)
    next
      case False
      then show ?thesis
        by (auto simp add: bit_signed_drop_bit_iff bit_drop_bit_eq)
    qed
  qed
qed

lemma push_drop_and:
  fixes y m :: int32
  shows "push_bit n (drop_bit n y AND m) = y AND push_bit n m"
  by (rule bit_eqI) (auto simp add: bit_simps)

lemma and_split:
  fixes y :: int32
  assumes "c AND d = 0"
  shows "(y AND c) + (y AND d) = y AND (c OR d)"
proof -
  have "(y AND c) AND (y AND d) = y AND (c AND d)"
    by (simp add: ac_simps)
  then have "(y AND c) + (y AND d) = (y AND c) OR (y AND d)"
    using assms by (simp add: disjunctive_add_eq_or)
  then show ?thesis
    by (simp add: bit.conj_disj_distrib)
qed

lemma step1:
  fixes y :: int32
  shows "y - (signed_drop_bit 1 y AND 0x55555555) = pairSums 1 0x55555555 y"
proof -
  have s: "signed_drop_bit 1 y AND 0x55555555 = drop_bit 1 y AND 0x55555555"
    by (rule signed_drop_bit_and) simp
  have "push_bit 1 (drop_bit 1 y AND 0x55555555) = y AND 0xAAAAAAAA"
    by (simp only: push_drop_and) simp
  then have t: "2 * (drop_bit 1 y AND 0x55555555) = y AND 0xAAAAAAAA"
    by (simp add: push_bit_eq_mult mult.commute)
  have "(y AND 0x55555555) + (y AND 0xAAAAAAAA) = y AND (0x55555555 OR 0xAAAAAAAA)"
    by (rule and_split) simp
  also have "(0x55555555 OR 0xAAAAAAAA :: int32) = - 1"
    by simp
  finally have "(y AND 0x55555555) + (y AND 0xAAAAAAAA) = y"
    by simp
  then show ?thesis
    unfolding pairSums_def s using t by (simp add: algebra_simps)
qed

lemma pairSums_add:
  assumes "a AND b = 0"
  shows "pairSums w m (a + b) = pairSums w m a + pairSums w m b"
proof -
  have ab: "a + b = a OR b"
    using assms by (rule disjunctive_add_eq_or)
  have "(a AND m) AND (b AND m) = (a AND b) AND m"
    by (simp add: ac_simps)
  then have 1: "(a AND m) + (b AND m) = (a AND m) OR (b AND m)"
    using assms by (simp add: disjunctive_add_eq_or)
  have "(drop_bit w a AND m) AND (drop_bit w b AND m) = drop_bit w (a AND b) AND m"
    by (simp add: ac_simps drop_bit_and)
  then have 2: "(drop_bit w a AND m) + (drop_bit w b AND m) = (drop_bit w a AND m) OR (drop_bit w b AND m)"
    using assms by (simp add: disjunctive_add_eq_or)
  have "pairSums w m (a + b) = ((a AND m) OR (b AND m)) + ((drop_bit w a AND m) OR (drop_bit w b AND m))"
    unfolding pairSums_def ab by (simp add: bit.conj_disj_distrib2 drop_bit_or)
  then show ?thesis
    unfolding 1 [symmetric] 2 [symmetric] by (simp add: pairSums_def)
qed

lemma bitCount_add:
  assumes "a AND b = 0"
  shows "bitCount (a + b) = bitCount a + bitCount b"
proof -
  have "\<not> (bit a i \<and> bit b i)" for i
    using assms by (metis bit_and_iff bit_0_eq bot_apply bot_bool_def)
  then have d: "{i. bit a i} \<inter> {i. bit b i} = {}"
    by blast
  have "{i. bit (a OR b) i} = {i. bit a i} \<union> {i. bit b i}"
    by (auto simp add: bit_or_iff)
  then have "bitCount (a OR b) = bitCount a + bitCount b"
    by (simp add: bitCount_card card_Un_disjoint [OF finite_bits finite_bits d])
  then show ?thesis
    by (simp add: disjunctive_add_eq_or [OF assms])
qed

lemma nibble_induct:
  fixes z :: int32
  assumes "\<forall>n\<in>{..<16::nat}. P (push_bit p (of_nat n) :: int32)"
  shows "P (z AND push_bit p 0xF)"
proof -
  have m: "(0xF :: int32) = mask 4"
    by (simp add: mask_eq_exp_minus_1)
  have "z AND push_bit p 0xF = push_bit p (take_bit 4 (drop_bit p z))"
    unfolding m by (rule bit_eqI) (auto simp add: bit_simps)
  also have "take_bit 4 (drop_bit p z) = of_nat (unat (take_bit 4 (drop_bit p z)))"
    by simp
  finally have e: "z AND push_bit p 0xF = push_bit p (of_nat (unat (take_bit 4 (drop_bit p z))))" .
  have "unat (take_bit 4 (drop_bit p z)) < 16"
    using take_bit_nat_less_exp [of 4 "unat (drop_bit p z)"] by (simp add: unsigned_take_bit_eq)
  with assms have "P (push_bit p (of_nat (unat (take_bit 4 (drop_bit p z)))))"
    by blast
  then show ?thesis
    by (simp only: e)
qed

lemma upt_32:
  "[0..<32] = [0, 1, 2, 3, 4, 5, 6, 7, 8, 9, 10, 11, 12, 13, 14, 15, 16, 17, 18, 19, 20, 21, 22,
      23, 24, 25, 26, 27, 28, 29, 30, 31]"
  by (simp add: upt_rec)

lemma nibble_counts:
  "\<forall>p\<in>{0, 4, 8, 12, 16, 20, 24, 28}. \<forall>n\<in>{..<16::nat}.
     pairSums 1 0x55555555 (push_bit p (of_nat n)) AND push_bit p 0xF
       = pairSums 1 0x55555555 (push_bit p (of_nat n))
     \<and> pairSums 2 0x33333333 (pairSums 1 0x55555555 (push_bit p (of_nat n)))
       = push_bit p (of_nat (bitCount (push_bit p (of_nat n))))
     \<and> bitCount (push_bit p (of_nat n)) \<le> 4"
  by (simp add: lessThan_nat_numeral pairSums_def bitCount_def upt_32)

lemma nibble_facts:
  fixes z :: int32
  assumes "p \<in> {0, 4, 8, 12, 16, 20, 24, 28}"
  shows "pairSums 1 0x55555555 (z AND push_bit p 0xF) AND push_bit p 0xF
           = pairSums 1 0x55555555 (z AND push_bit p 0xF)
         \<and> pairSums 2 0x33333333 (pairSums 1 0x55555555 (z AND push_bit p 0xF))
           = push_bit p (of_nat (bitCount (z AND push_bit p 0xF)))
         \<and> bitCount (z AND push_bit p 0xF) \<le> 4"
proof (rule nibble_induct)
  from nibble_counts assms show "\<forall>n\<in>{..<16}.
      pairSums 1 0x55555555 (push_bit p (of_nat n)) AND push_bit p 0xF
        = pairSums 1 0x55555555 (push_bit p (of_nat n))
      \<and> pairSums 2 0x33333333 (pairSums 1 0x55555555 (push_bit p (of_nat n)))
        = push_bit p (of_nat (bitCount (push_bit p (of_nat n))))
      \<and> bitCount (push_bit p (of_nat n)) \<le> 4"
    by (rule bspec)
qed

lemma split_step:
  fixes y c d :: int32
  assumes cd: "c AND d = 0"
    and qc: "pairSums 1 0x55555555 (y AND c) AND c = pairSums 1 0x55555555 (y AND c)"
    and qd: "pairSums 1 0x55555555 (y AND d) AND d = pairSums 1 0x55555555 (y AND d)"
  shows "pairSums 1 0x55555555 (y AND (c OR d)) AND (c OR d) = pairSums 1 0x55555555 (y AND (c OR d))
    \<and> pairSums 2 0x33333333 (pairSums 1 0x55555555 (y AND (c OR d)))
        = pairSums 2 0x33333333 (pairSums 1 0x55555555 (y AND c))
          + pairSums 2 0x33333333 (pairSums 1 0x55555555 (y AND d))
    \<and> bitCount (y AND (c OR d)) = bitCount (y AND c) + bitCount (y AND d)"
proof -
  let ?s = "pairSums 1 0x55555555"
  have y: "y AND (c OR d) = (y AND c) + (y AND d)"
    using cd by (simp add: and_split)
  have "(y AND c) AND (y AND d) = y AND (c AND d)"
    by (simp add: ac_simps)
  then have z: "(y AND c) AND (y AND d) = 0"
    using cd by simp
  have s: "?s (y AND (c OR d)) = ?s (y AND c) + ?s (y AND d)"
    unfolding y using z by (rule pairSums_add)
  have "?s (y AND c) AND ?s (y AND d) = (?s (y AND c) AND c) AND (?s (y AND d) AND d)"
    by (simp only: qc qd)
  also have "\<dots> = (?s (y AND c) AND ?s (y AND d)) AND (c AND d)"
    by (simp add: ac_simps)
  finally have sz: "?s (y AND c) AND ?s (y AND d) = 0"
    using cd by simp
  have o: "?s (y AND c) + ?s (y AND d) = ?s (y AND c) OR ?s (y AND d)"
    using sz by (rule disjunctive_add_eq_or)
  have "(?s (y AND c) AND c) AND (c OR d) = ?s (y AND c) AND c"
    by (rule bit_eqI) (auto simp add: bit_simps)
  then have lc: "?s (y AND c) AND (c OR d) = ?s (y AND c)"
    by (simp only: qc)
  have "(?s (y AND d) AND d) AND (c OR d) = ?s (y AND d) AND d"
    by (rule bit_eqI) (auto simp add: bit_simps)
  then have ld: "?s (y AND d) AND (c OR d) = ?s (y AND d)"
    by (simp only: qd)
  have 1: "?s (y AND (c OR d)) AND (c OR d) = ?s (y AND (c OR d))"
    unfolding s o by (simp only: bit.conj_disj_distrib2 lc ld)
  have 2: "pairSums 2 0x33333333 (?s (y AND (c OR d)))
        = pairSums 2 0x33333333 (?s (y AND c)) + pairSums 2 0x33333333 (?s (y AND d))"
    unfolding s using sz by (rule pairSums_add)
  have 3: "bitCount (y AND (c OR d)) = bitCount (y AND c) + bitCount (y AND d)"
    unfolding y using z by (rule bitCount_add)
  from 1 2 3 show ?thesis
    by blast
qed

lemma nibble_sums:
  fixes y :: int32
  shows "pairSums 2 0x33333333 (pairSums 1 0x55555555 y)
     = of_nat (bitCount (y AND 0xF) + 0x10 * bitCount (y AND 0xF0)
         + 0x100 * bitCount (y AND 0xF00) + 0x1000 * bitCount (y AND 0xF000)
         + 0x10000 * bitCount (y AND 0xF0000) + 0x100000 * bitCount (y AND 0xF00000)
         + 0x1000000 * bitCount (y AND 0xF000000) + 0x10000000 * bitCount (y AND 0xF0000000))
   \<and> bitCount y = bitCount (y AND 0xF) + bitCount (y AND 0xF0)
         + bitCount (y AND 0xF00) + bitCount (y AND 0xF000)
         + bitCount (y AND 0xF0000) + bitCount (y AND 0xF00000)
         + bitCount (y AND 0xF000000) + bitCount (y AND 0xF0000000)"
proof -
  let ?s = "pairSums 1 0x55555555"
  let ?G = "\<lambda>a. pairSums 2 0x33333333 (pairSums 1 0x55555555 a)"
  have n0: "?s (y AND 0xF) AND 0xF = ?s (y AND 0xF)
      \<and> ?G (y AND 0xF) = of_nat (bitCount (y AND 0xF))"
    using nibble_facts [of 0 y] by simp
  have n1: "?s (y AND 0xF0) AND 0xF0 = ?s (y AND 0xF0)
      \<and> ?G (y AND 0xF0) = of_nat (0x10 * bitCount (y AND 0xF0))"
    using nibble_facts [of 4 y] by (simp add: push_bit_eq_mult)
  have n2: "?s (y AND 0xF00) AND 0xF00 = ?s (y AND 0xF00)
      \<and> ?G (y AND 0xF00) = of_nat (0x100 * bitCount (y AND 0xF00))"
    using nibble_facts [of 8 y] by (simp add: push_bit_eq_mult)
  have n3: "?s (y AND 0xF000) AND 0xF000 = ?s (y AND 0xF000)
      \<and> ?G (y AND 0xF000) = of_nat (0x1000 * bitCount (y AND 0xF000))"
    using nibble_facts [of 12 y] by (simp add: push_bit_eq_mult)
  have n4: "?s (y AND 0xF0000) AND 0xF0000 = ?s (y AND 0xF0000)
      \<and> ?G (y AND 0xF0000) = of_nat (0x10000 * bitCount (y AND 0xF0000))"
    using nibble_facts [of 16 y] by (simp add: push_bit_eq_mult)
  have n5: "?s (y AND 0xF00000) AND 0xF00000 = ?s (y AND 0xF00000)
      \<and> ?G (y AND 0xF00000) = of_nat (0x100000 * bitCount (y AND 0xF00000))"
    using nibble_facts [of 20 y] by (simp add: push_bit_eq_mult)
  have n6: "?s (y AND 0xF000000) AND 0xF000000 = ?s (y AND 0xF000000)
      \<and> ?G (y AND 0xF000000) = of_nat (0x1000000 * bitCount (y AND 0xF000000))"
    using nibble_facts [of 24 y] by (simp add: push_bit_eq_mult)
  have n7: "?s (y AND 0xF0000000) AND 0xF0000000 = ?s (y AND 0xF0000000)
      \<and> ?G (y AND 0xF0000000) = of_nat (0x10000000 * bitCount (y AND 0xF0000000))"
    using nibble_facts [of 28 y] by (simp add: push_bit_eq_mult)
  have b0: "?s (y AND 0xFF) AND 0xFF = ?s (y AND 0xFF)
      \<and> ?G (y AND 0xFF) = ?G (y AND 0xF) + ?G (y AND 0xF0)
      \<and> bitCount (y AND 0xFF) = bitCount (y AND 0xF) + bitCount (y AND 0xF0)"
    using split_step [of "0xF" "0xF0" y] n0 n1 by simp
  have b1: "?s (y AND 0xFF00) AND 0xFF00 = ?s (y AND 0xFF00)
      \<and> ?G (y AND 0xFF00) = ?G (y AND 0xF00) + ?G (y AND 0xF000)
      \<and> bitCount (y AND 0xFF00) = bitCount (y AND 0xF00) + bitCount (y AND 0xF000)"
    using split_step [of "0xF00" "0xF000" y] n2 n3 by simp
  have b2: "?s (y AND 0xFF0000) AND 0xFF0000 = ?s (y AND 0xFF0000)
      \<and> ?G (y AND 0xFF0000) = ?G (y AND 0xF0000) + ?G (y AND 0xF00000)
      \<and> bitCount (y AND 0xFF0000) = bitCount (y AND 0xF0000) + bitCount (y AND 0xF00000)"
    using split_step [of "0xF0000" "0xF00000" y] n4 n5 by simp
  have b3: "?s (y AND 0xFF000000) AND 0xFF000000 = ?s (y AND 0xFF000000)
      \<and> ?G (y AND 0xFF000000) = ?G (y AND 0xF000000) + ?G (y AND 0xF0000000)
      \<and> bitCount (y AND 0xFF000000) = bitCount (y AND 0xF000000) + bitCount (y AND 0xF0000000)"
    using split_step [of "0xF000000" "0xF0000000" y] n6 n7 by simp
  have h0: "?s (y AND 0xFFFF) AND 0xFFFF = ?s (y AND 0xFFFF)
      \<and> ?G (y AND 0xFFFF) = ?G (y AND 0xFF) + ?G (y AND 0xFF00)
      \<and> bitCount (y AND 0xFFFF) = bitCount (y AND 0xFF) + bitCount (y AND 0xFF00)"
    using split_step [of "0xFF" "0xFF00" y] b0 b1 by simp
  have h1: "?s (y AND 0xFFFF0000) AND 0xFFFF0000 = ?s (y AND 0xFFFF0000)
      \<and> ?G (y AND 0xFFFF0000) = ?G (y AND 0xFF0000) + ?G (y AND 0xFF000000)
      \<and> bitCount (y AND 0xFFFF0000) = bitCount (y AND 0xFF0000) + bitCount (y AND 0xFF000000)"
    using split_step [of "0xFF0000" "0xFF000000" y] b2 b3 by simp
  have "(0xFFFF :: int32) OR 0xFFFF0000 = - 1"
    by simp
  then have w: "y AND (0xFFFF OR 0xFFFF0000) = y"
    by (simp only: and.right_neutral)
  have "?G (y AND (0xFFFF OR 0xFFFF0000)) = ?G (y AND 0xFFFF) + ?G (y AND 0xFFFF0000)
      \<and> bitCount (y AND (0xFFFF OR 0xFFFF0000)) = bitCount (y AND 0xFFFF) + bitCount (y AND 0xFFFF0000)"
    using split_step [of "0xFFFF" "0xFFFF0000" y] h0 h1 by simp
  then have f: "?G y = ?G (y AND 0xFFFF) + ?G (y AND 0xFFFF0000)
      \<and> bitCount y = bitCount (y AND 0xFFFF) + bitCount (y AND 0xFFFF0000)"
    by (simp only: w)
  show ?thesis
    using f h0 h1 b0 b1 b2 b3 n0 n1 n2 n3 n4 n5 n6 n7 by simp
qed

lemma unat_of_nat_32: "N < 2 ^ 32 \<Longrightarrow> unat (of_nat N :: int32) = N"
  by (simp add: unat_of_nat)

lemma add_shift:
  assumes "N < 2 ^ 31"
  shows "(of_nat N :: int32) + signed_drop_bit k (of_nat N) = of_nat (N + N div 2 ^ k)"
proof -
  have u: "unat (of_nat N :: int32) = N"
    using assms by (simp add: unat_of_nat)
  have d: "unat (drop_bit k (of_nat N :: int32)) = N div 2 ^ k"
    unfolding unat_drop_bit_eq u by (simp add: drop_bit_eq_div)
  have "signed_drop_bit k (of_nat N :: int32) = drop_bit k (of_nat N)"
    by (rule signed_drop_bit_nonneg) (use assms u in simp)
  also have "\<dots> = of_nat (unat (drop_bit k (of_nat N :: int32)))"
    by simp
  finally have "signed_drop_bit k (of_nat N :: int32) = of_nat (N div 2 ^ k)"
    by (simp only: d)
  then show ?thesis
    by simp
qed

lemma unat_and_7f:
  assumes "N < 2 ^ 32"
  shows "unat ((of_nat N :: int32) AND 0x7f) = N mod 128"
proof -
  have "(0x7f :: int32) = mask 7"
    by (simp add: mask_eq_exp_minus_1)
  then have "unat ((of_nat N :: int32) AND 0x7f) = unat (take_bit 7 (of_nat N :: int32))"
    by (simp add: take_bit_eq_mask)
  also have "\<dots> = take_bit 7 (unat (of_nat N :: int32))"
    by (simp add: unsigned_take_bit_eq)
  also have "\<dots> = N mod 128"
    using assms by (simp add: unat_of_nat take_bit_eq_mod)
  finally show ?thesis .
qed

lemma loc_add:
  fixes a b c d :: int32
  assumes "a AND c = a" "b AND d = b" "c AND d = 0"
  shows "(a + b) AND (c OR d) = a + b" and "a AND b = 0"
proof -
  have ac: "bit a n \<Longrightarrow> bit c n" for n
    using assms(1) by (metis bit_and_iff)
  have bd: "bit b n \<Longrightarrow> bit d n" for n
    using assms(2) by (metis bit_and_iff)
  have cd: "\<not> (bit c n \<and> bit d n)" for n
    using assms(3) by (metis bit_and_iff bit_0_eq bot_apply bot_bool_def)
  show z: "a AND b = 0"
    by (rule bit_eqI) (use ac bd cd in \<open>auto simp add: bit_and_iff\<close>)
  have "(a OR b) AND (c OR d) = a OR b"
    by (rule bit_eqI) (use ac bd in \<open>auto simp add: bit_and_iff bit_or_iff\<close>)
  then show "(a + b) AND (c OR d) = a + b"
    by (simp add: disjunctive_add_eq_or [OF z])
qed

lemma loc_nibble:
  assumes "d < 16"
  shows "(of_nat (2 ^ p * d) :: int32) AND push_bit p 0xF = of_nat (2 ^ p * d)"
proof -
  have m: "(0xF :: int32) = mask 4"
    by (simp add: mask_eq_exp_minus_1)
  have "take_bit 4 d = d"
    using assms by (simp add: take_bit_nat_eq_self)
  then have "take_bit 4 (of_nat d :: int32) = of_nat d"
    by (simp only: take_bit_of_nat)
  then have "(of_nat d :: int32) AND 0xF = of_nat d"
    by (simp only: m take_bit_eq_mask)
  then have "push_bit p (of_nat d :: int32) AND push_bit p 0xF = push_bit p (of_nat d)"
    by (simp only: push_bit_and [symmetric])
  then show ?thesis
    by (simp add: push_bit_eq_mult mult.commute)
qed

lemma loc_and:
  fixes a b c d :: int32
  assumes "a AND c = a" "b AND d = b" "c AND d = 0"
  shows "(a + b) AND c = a"
proof -
  have ac: "bit a n \<Longrightarrow> bit c n" for n
    using assms(1) by (metis bit_and_iff)
  have bd: "bit b n \<Longrightarrow> bit d n" for n
    using assms(2) by (metis bit_and_iff)
  have cd: "\<not> (bit c n \<and> bit d n)" for n
    using assms(3) by (metis bit_and_iff bit_0_eq bot_apply bot_bool_def)
  have "(a OR b) AND c = a"
    by (rule bit_eqI) (use ac bd cd in \<open>auto simp add: bit_and_iff bit_or_iff\<close>)
  then show ?thesis
    by (simp add: disjunctive_add_eq_or [OF loc_add(2) [OF assms]])
qed

lemma even_nibbles:
  assumes "d0 < 16" "d1 < 16" "d2 < 16" "d3 < 16" "d4 < 16" "d5 < 16" "d6 < 16" "d7 < 16"
  shows "(of_nat (d0 + 0x10 * d1 + 0x100 * d2 + 0x1000 * d3 + 0x10000 * d4 + 0x100000 * d5
            + 0x1000000 * d6 + 0x10000000 * d7) :: int32) AND 0x0f0f0f0f
         = of_nat (d0 + 0x100 * d2 + 0x10000 * d4 + 0x1000000 * d6)"
proof -
  have e0: "(of_nat d0 :: int32) AND 0xF = of_nat d0"
    using loc_nibble [OF assms(1), of 0] by simp
  have e1: "(of_nat (0x10 * d1) :: int32) AND 0xF0 = of_nat (0x10 * d1)"
    using loc_nibble [OF assms(2), of 4] by simp
  have e2: "(of_nat (0x100 * d2) :: int32) AND 0xF00 = of_nat (0x100 * d2)"
    using loc_nibble [OF assms(3), of 8] by simp
  have e3: "(of_nat (0x1000 * d3) :: int32) AND 0xF000 = of_nat (0x1000 * d3)"
    using loc_nibble [OF assms(4), of 12] by simp
  have e4: "(of_nat (0x10000 * d4) :: int32) AND 0xF0000 = of_nat (0x10000 * d4)"
    using loc_nibble [OF assms(5), of 16] by simp
  have e5: "(of_nat (0x100000 * d5) :: int32) AND 0xF00000 = of_nat (0x100000 * d5)"
    using loc_nibble [OF assms(6), of 20] by simp
  have e6: "(of_nat (0x1000000 * d6) :: int32) AND 0xF000000 = of_nat (0x1000000 * d6)"
    using loc_nibble [OF assms(7), of 24] by simp
  have e7: "(of_nat (0x10000000 * d7) :: int32) AND 0xF0000000 = of_nat (0x10000000 * d7)"
    using loc_nibble [OF assms(8), of 28] by simp
  have a02: "(of_nat d0 + of_nat (0x100 * d2) :: int32) AND 0xF0F = of_nat d0 + of_nat (0x100 * d2)"
    using loc_add(1) [OF e0 e2] by simp
  have a46: "(of_nat (0x10000 * d4) + of_nat (0x1000000 * d6) :: int32) AND 0xF0F0000
      = of_nat (0x10000 * d4) + of_nat (0x1000000 * d6)"
    using loc_add(1) [OF e4 e6] by simp
  have ev: "((of_nat d0 + of_nat (0x100 * d2)) + (of_nat (0x10000 * d4) + of_nat (0x1000000 * d6)) :: int32)
        AND 0x0f0f0f0f
      = (of_nat d0 + of_nat (0x100 * d2)) + (of_nat (0x10000 * d4) + of_nat (0x1000000 * d6))"
    using loc_add(1) [OF a02 a46] by simp
  have a13: "(of_nat (0x10 * d1) + of_nat (0x1000 * d3) :: int32) AND 0xF0F0
      = of_nat (0x10 * d1) + of_nat (0x1000 * d3)"
    using loc_add(1) [OF e1 e3] by simp
  have a57: "(of_nat (0x100000 * d5) + of_nat (0x10000000 * d7) :: int32) AND 0xF0F00000
      = of_nat (0x100000 * d5) + of_nat (0x10000000 * d7)"
    using loc_add(1) [OF e5 e7] by simp
  have od: "((of_nat (0x10 * d1) + of_nat (0x1000 * d3))
        + (of_nat (0x100000 * d5) + of_nat (0x10000000 * d7)) :: int32) AND 0xf0f0f0f0
      = (of_nat (0x10 * d1) + of_nat (0x1000 * d3))
        + (of_nat (0x100000 * d5) + of_nat (0x10000000 * d7))"
    using loc_add(1) [OF a13 a57] by simp
  have "(((of_nat d0 + of_nat (0x100 * d2)) + (of_nat (0x10000 * d4) + of_nat (0x1000000 * d6)))
        + ((of_nat (0x10 * d1) + of_nat (0x1000 * d3))
           + (of_nat (0x100000 * d5) + of_nat (0x10000000 * d7))) :: int32) AND 0x0f0f0f0f
      = (of_nat d0 + of_nat (0x100 * d2)) + (of_nat (0x10000 * d4) + of_nat (0x1000000 * d6))"
    by (rule loc_and [OF ev od]) simp
  moreover have "(of_nat (d0 + 0x10 * d1 + 0x100 * d2 + 0x1000 * d3 + 0x10000 * d4 + 0x100000 * d5
            + 0x1000000 * d6 + 0x10000000 * d7) :: int32)
      = ((of_nat d0 + of_nat (0x100 * d2)) + (of_nat (0x10000 * d4) + of_nat (0x1000000 * d6)))
        + ((of_nat (0x10 * d1) + of_nat (0x1000 * d3))
           + (of_nat (0x100000 * d5) + of_nat (0x10000000 * d7)))"
    by (simp only: of_nat_add ac_simps)
  moreover have "(of_nat (d0 + 0x100 * d2 + 0x10000 * d4 + 0x1000000 * d6) :: int32)
      = (of_nat d0 + of_nat (0x100 * d2)) + (of_nat (0x10000 * d4) + of_nat (0x1000000 * d6))"
    by (simp only: of_nat_add ac_simps)
  ultimately show ?thesis
    by (simp only:)
qed

lemma div_low: "r < m \<Longrightarrow> (r + m * q) div m = (q::nat)"
  by simp

lemma mod_low: "r < m \<Longrightarrow> (r + m * q) mod m = (r::nat)"
  by simp

lemma popCount_tail:
  fixes b2 :: int32
  assumes c: "c0 \<le> 4" "c1 \<le> 4" "c2 \<le> 4" "c3 \<le> 4" "c4 \<le> 4" "c5 \<le> 4" "c6 \<le> 4" "c7 \<le> (4::nat)"
    and b2: "b2 = of_nat (c0 + 0x10 * c1 + 0x100 * c2 + 0x1000 * c3 + 0x10000 * c4 + 0x100000 * c5
            + 0x1000000 * c6 + 0x10000000 * c7)"
  shows "unat (let b3 = (b2 + signed_drop_bit 4 b2) AND 0x0f0f0f0f;
                   b4 = b3 + signed_drop_bit 8 b3;
                   b5 = b4 + signed_drop_bit 16 b4
               in b5 AND 0x7f) = c0 + c1 + c2 + c3 + c4 + c5 + c6 + c7"
proof -
  define N2 where "N2 = c0 + 0x10 * c1 + 0x100 * c2 + 0x1000 * c3 + 0x10000 * c4 + 0x100000 * c5
            + 0x1000000 * c6 + 0x10000000 * c7"
  have "N2 < 2 ^ 31"
    using c by (simp add: N2_def)
  then have s2: "b2 + signed_drop_bit 4 b2 = of_nat (N2 + N2 div 2 ^ 4)"
    unfolding b2 N2_def [symmetric] by (rule add_shift)
  have e2: "N2 = c0 + 2 ^ 4 * (c1 + 0x10 * c2 + 0x100 * c3 + 0x1000 * c4 + 0x10000 * c5
            + 0x100000 * c6 + 0x1000000 * c7)"
    by (simp add: N2_def)
  have "N2 div 2 ^ 4 = c1 + 0x10 * c2 + 0x100 * c3 + 0x1000 * c4 + 0x10000 * c5
            + 0x100000 * c6 + 0x1000000 * c7"
    unfolding e2 by (rule div_low) (use c in simp)
  then have n2: "N2 + N2 div 2 ^ 4 = (c0 + c1) + 0x10 * (c1 + c2) + 0x100 * (c2 + c3) + 0x1000 * (c3 + c4)
      + 0x10000 * (c4 + c5) + 0x100000 * (c5 + c6) + 0x1000000 * (c6 + c7) + 0x10000000 * c7"
    by (simp add: N2_def)
  define N3 where "N3 = (c0 + c1) + 0x100 * (c2 + c3) + 0x10000 * (c4 + c5) + 0x1000000 * (c6 + c7)"
  have b3: "(b2 + signed_drop_bit 4 b2) AND 0x0f0f0f0f = of_nat N3"
    unfolding s2 n2 N3_def using c by (simp only: even_nibbles)
  have "N3 < 2 ^ 31"
    using c by (simp add: N3_def)
  then have s3: "(of_nat N3 :: int32) + signed_drop_bit 8 (of_nat N3) = of_nat (N3 + N3 div 2 ^ 8)"
    by (rule add_shift)
  have e3: "N3 = (c0 + c1) + 2 ^ 8 * ((c2 + c3) + 0x100 * (c4 + c5) + 0x10000 * (c6 + c7))"
    by (simp add: N3_def)
  have d3: "N3 div 2 ^ 8 = (c2 + c3) + 0x100 * (c4 + c5) + 0x10000 * (c6 + c7)"
    unfolding e3 by (rule div_low) (use c in simp)
  define N4 where "N4 = N3 + N3 div 2 ^ 8"
  have n4: "N4 = ((c0 + c1 + c2 + c3) + 0x100 * (c2 + c3 + c4 + c5))
      + 2 ^ 16 * ((c4 + c5 + c6 + c7) + 0x100 * (c6 + c7))"
    unfolding N4_def d3 by (simp add: N3_def)
  have "N4 < 2 ^ 31"
    using c by (simp add: n4)
  then have s4: "(of_nat N4 :: int32) + signed_drop_bit 16 (of_nat N4) = of_nat (N4 + N4 div 2 ^ 16)"
    by (rule add_shift)
  have d4: "N4 div 2 ^ 16 = (c4 + c5 + c6 + c7) + 0x100 * (c6 + c7)"
    unfolding n4 by (rule div_low) (use c in simp)
  define N5 where "N5 = N4 + N4 div 2 ^ 16"
  have n5: "N5 = (c0 + c1 + c2 + c3 + c4 + c5 + c6 + c7) + 128 * (2 * (c2 + c3 + c4 + c5 + c6 + c7)
      + 512 * ((c4 + c5 + c6 + c7) + 0x100 * (c6 + c7)))"
    unfolding N5_def d4 by (simp add: n4)
  have "N5 < 2 ^ 32"
    using c by (simp add: n5)
  then have "unat ((of_nat N5 :: int32) AND 0x7f) = N5 mod 128"
    by (rule unat_and_7f)
  also have "\<dots> = c0 + c1 + c2 + c3 + c4 + c5 + c6 + c7"
    unfolding n5 by (rule mod_low) (use c in simp)
  finally show ?thesis
    unfolding Let_def b3 s3 N4_def [symmetric] s4 N5_def [symmetric] .
qed

lemma popCount_bitCount: "popCount y = bitCount y"
proof -
  define b2 where "b2 = pairSums 2 0x33333333 (pairSums 1 0x55555555 y)"
  have s: "signed_drop_bit 2 b1 AND 0x33333333 = drop_bit 2 b1 AND 0x33333333" for b1 :: int32
    by (rule signed_drop_bit_and) simp
  have p: "popCount y = unat (let b3 = (b2 + signed_drop_bit 4 b2) AND 0x0f0f0f0f;
                   b4 = b3 + signed_drop_bit 8 b3;
                   b5 = b4 + signed_drop_bit 16 b4
               in b5 AND 0x7f)"
    unfolding popCount_def step1 b2_def by (simp add: Let_def s pairSums_def [of 2])
  have c: "bitCount (y AND 0xF) \<le> 4" "bitCount (y AND 0xF0) \<le> 4" "bitCount (y AND 0xF00) \<le> 4"
    "bitCount (y AND 0xF000) \<le> 4" "bitCount (y AND 0xF0000) \<le> 4" "bitCount (y AND 0xF00000) \<le> 4"
    "bitCount (y AND 0xF000000) \<le> 4" "bitCount (y AND 0xF0000000) \<le> 4"
    using nibble_facts [of 0 y] nibble_facts [of 4 y] nibble_facts [of 8 y] nibble_facts [of 12 y]
      nibble_facts [of 16 y] nibble_facts [of 20 y] nibble_facts [of 24 y] nibble_facts [of 28 y]
    by simp_all
  from nibble_sums [of y] have
    b: "b2 = of_nat (bitCount (y AND 0xF) + 0x10 * bitCount (y AND 0xF0)
         + 0x100 * bitCount (y AND 0xF00) + 0x1000 * bitCount (y AND 0xF000)
         + 0x10000 * bitCount (y AND 0xF0000) + 0x100000 * bitCount (y AND 0xF00000)
         + 0x1000000 * bitCount (y AND 0xF000000) + 0x10000000 * bitCount (y AND 0xF0000000))"
    and n: "bitCount y = bitCount (y AND 0xF) + bitCount (y AND 0xF0)
         + bitCount (y AND 0xF00) + bitCount (y AND 0xF000)
         + bitCount (y AND 0xF0000) + bitCount (y AND 0xF00000)
         + bitCount (y AND 0xF000000) + bitCount (y AND 0xF0000000)"
    unfolding b2_def by blast+
  show ?thesis
    unfolding p n by (rule popCount_tail [OF c b])
qed

section \<open>The packed nodes of a dict\<close>

text \<open>
  \<^verbatim>\<open>alter\<close> keeps the packed nodes well formed: a child is inserted at the number of
  bits set below its fragment, which \<^verbatim>\<open>popCount\<close> counts and which is at most the
  length of the array; a child that is read is altered in place or spliced out. When
  \<^verbatim>\<open>alterValue\<close> never answers \<^verbatim>\<open>REMOVE\<close>, no child is emptied, and a packed node
  keeps two children or its single interior child.
\<close>

lemma no_hole_all:
  "list_all (\<lambda>c. case c of None \<Rightarrow> False | Some child \<Rightarrow> P child) children
     \<longleftrightarrow> None \<notin> set children \<and> childrenAll P children"
  by (induction children) (auto split: option.splits)

lemma bitCount_and_le: "bitCount (a AND b) \<le> bitCount a"
proof -
  have "{i. bit (a AND b) i} \<subseteq> {i. bit a i}"
    by (auto simp: bit_and_iff)
  then show ?thesis
    by (simp add: bitCount_card card_mono finite_bits)
qed

lemma childIndex_le:
  "popCount (bitmap AND m) \<le> bitCount bitmap"
  by (simp add: popCount_bitCount bitCount_and_le)

lemma mergeLeavesLoop_wellFormed:
  "mergeLeavesLoop shift hashA a hashB b = Some merged \<Longrightarrow>
   a \<noteq> EMPTY_NODE \<and> packedWellFormed a \<longrightarrow> b \<noteq> EMPTY_NODE \<and> packedWellFormed b \<longrightarrow>
   merged \<noteq> EMPTY_NODE \<and> packedWellFormed merged"
proof (erule mergeLeavesLoop.raw_induct [rotated], goal_cases)
  case (1 loop shift hash node otherHash otherNode merged)
  have l: "hashFragment shift hash mod 32 = hashFragment shift hash"
      "hashFragment shift otherHash mod 32 = hashFragment shift otherHash"
    using hashFragment_less by simp_all
  show ?case
  proof (cases "hashFragment shift hash = hashFragment shift otherHash")
    case True
    with 1(2) obtain child where
      c: "loop (shift + FRAGMENT_SIZE) hash node otherHash otherNode = Some child"
         "merged = PackedNode (toMask (hashFragment shift hash) OR toMask (hashFragment shift otherHash)) [Some child]"
      by (auto simp: Let_def split: bind_splits)
    from 1(1) [OF c(1)] c(2) True show ?thesis
      by (simp add: bitCount_toMask)
  next
    case False
    with 1(2) l show ?thesis
      by (auto simp: Let_def bitCount_two_masks split: if_splits)
  qed
qed

lemma mergeLeaves_wellFormed:
  assumes "mergeLeaves shift hashA a hashB b = Inr merged"
    and "a \<noteq> EMPTY_NODE \<and> packedWellFormed a" and "b \<noteq> EMPTY_NODE \<and> packedWellFormed b"
  shows "packedWellFormed merged"
proof (cases "hashA = hashB")
  case True
  with assms(1) show ?thesis
    by (auto simp: mergeLeaves_def split: node.splits)
next
  case False
  with assms(1) have "mergeLeavesLoop shift hashA a hashB b = Some merged"
    by (auto simp: mergeLeaves_def split: option.splits)
  from mergeLeavesLoop_wellFormed [OF this] assms(2,3) show ?thesis
    by simp
qed

lemma alterLeafNode_wellFormed:
  "alterLeafNode shift hash nodeKey nodeValue keyHash key f n = Inr (node', n') \<Longrightarrow>
   packedWellFormed node'"
  by (auto simp: alterLeafNode_def split: if_splits prod.splits op.splits sum.splits
      dest!: mergeLeaves_wellFormed)

lemma alterCollisionNode_wellFormed:
  "alterCollisionNode shift hash pairs keyHash key f n = Inr (node', n') \<Longrightarrow>
   packedWellFormed node'"
  by (auto simp: alterCollisionNode_def Let_def
      split: if_splits prod.splits op.splits sum.splits option.splits
      dest!: mergeLeaves_wellFormed)

lemma xor_toMask_nonzero: "bitmap \<noteq> toMask f \<Longrightarrow> bitmap XOR toMask f \<noteq> 0"
  by (metis xor.right_neutral xor.left_commute xor_self_eq)

lemma js_index_Some:
  "js_index children i = Some child \<Longrightarrow> i < length children \<and> children ! i = Some child"
  by (auto simp: js_index_def split: if_splits)

lemma packed_child_altered:
  assumes wf: "packedWellFormed (PackedNode bitmap children)"
    and child: "js_index children childIndex = Some child"
    and new: "newChild \<noteq> EMPTY_NODE \<longrightarrow> packedWellFormed newChild"
    and bit: "bitmap AND toMask fragment \<noteq> 0"
  shows "bitmap \<noteq> toMask fragment \<Longrightarrow>
           packedWellFormed (PackedNode (bitmap XOR toMask fragment) (toSpliced children childIndex))"
    and "newChild \<noteq> EMPTY_NODE \<Longrightarrow>
           packedWellFormed (PackedNode bitmap (cloneAndSet children childIndex (Some newChild)))"
proof -
  note i = js_index_Some [OF child]
  assume "bitmap \<noteq> toMask fragment"
  then have "1 \<le> bitCount (bitmap XOR toMask fragment)"
    by (intro bitCount_pos xor_toMask_nonzero)
  moreover have "Suc (length (toSpliced children childIndex)) = length children"
    using i by (auto simp add: toSpliced_def)
  then have "length (toSpliced children childIndex) = bitCount (bitmap XOR toMask fragment)"
    using bitCount_xor_toMask [OF bit] wf by simp
  moreover have "None \<notin> set (toSpliced children childIndex)"
    using wf by (auto simp: no_hole_all toSpliced_def dest: in_set_takeD in_set_dropD)
  ultimately show "packedWellFormed (PackedNode (bitmap XOR toMask fragment) (toSpliced children childIndex))"
    using wf by (simp add: no_hole_all toSpliced_all)
next
  note i = js_index_Some [OF child]
  assume "newChild \<noteq> EMPTY_NODE"
  moreover have "None \<notin> set (js_assign children childIndex (Some newChild))"
    using wf i by (auto simp: no_hole_all js_assign_def dest: set_update_subset_insert [THEN subsetD])
  moreover have "length (js_assign children childIndex (Some newChild)) = length children"
    using i by (simp add: js_assign_def)
  ultimately show "packedWellFormed (PackedNode bitmap (cloneAndSet children childIndex (Some newChild)))"
    using wf new by (simp add: no_hole_all cloneAndSet_def js_assign_all)
qed

lemma packed_child_inserted:
  assumes wf: "packedWellFormed (PackedNode bitmap children)"
    and bit: "bitmap AND toMask fragment = 0"
  shows "packedWellFormed (PackedNode (bitmap OR toMask fragment)
           (cloneAndInsert children (popCount (bitmap AND (toMask fragment - 1)))
              (Some (LeafNode keyHash key v))))"
    and "packedWellFormed (ArrayNode size'
           (promoteLoop 0 0 bitmap children
              (js_assign (replicate 32 None) fragment (Some (LeafNode keyHash key v)))))"
proof -
  have le: "popCount (bitmap AND (toMask fragment - 1)) \<le> length children"
    using wf childIndex_le [of bitmap "toMask fragment - 1"] by simp
  then have "cloneAndInsert children (popCount (bitmap AND (toMask fragment - 1)))
               (Some (LeafNode keyHash key v))
             = take (popCount (bitmap AND (toMask fragment - 1))) children
               @ [Some (LeafNode keyHash key v)]
               @ drop (popCount (bitmap AND (toMask fragment - 1))) children"
    by (simp add: cloneAndInsert_def)
  then have "None \<notin> set (cloneAndInsert children (popCount (bitmap AND (toMask fragment - 1)))
               (Some (LeafNode keyHash key v)))"
    and "length (cloneAndInsert children (popCount (bitmap AND (toMask fragment - 1)))
               (Some (LeafNode keyHash key v))) = Suc (length children)"
    using wf by (auto simp: no_hole_all dest: in_set_takeD in_set_dropD)
  then show "packedWellFormed (PackedNode (bitmap OR toMask fragment)
           (cloneAndInsert children (popCount (bitmap AND (toMask fragment - 1)))
              (Some (LeafNode keyHash key v))))"
    using wf bitCount_or_toMask [OF bit] by (simp add: no_hole_all cloneAndInsert_all)
next
  have "list_all (\<lambda>c. case c of None \<Rightarrow> True
                            | Some child \<Rightarrow> child \<noteq> EMPTY_NODE \<and> packedWellFormed child)
          (replicate 32 (None :: ('a, 'b) node option))"
    by (simp add: list_all_iff)
  then show "packedWellFormed (ArrayNode size'
           (promoteLoop 0 0 bitmap children
              (js_assign (replicate 32 None) fragment (Some (LeafNode keyHash key v)))))"
    using wf by (simp add: no_hole_all promoteLoop_all js_assign_all)
qed

lemma js_index_wellFormed:
  "packedWellFormed (PackedNode bitmap children) \<Longrightarrow> js_index children i = Some child \<Longrightarrow>
     child \<noteq> EMPTY_NODE \<and> packedWellFormed child"
  "packedWellFormed (ArrayNode nodeSize children) \<Longrightarrow> js_index children i = Some child \<Longrightarrow>
     child \<noteq> EMPTY_NODE \<and> packedWellFormed child"
  by (auto simp: no_hole_all dest: js_index_all)

lemma alter_wellFormed:
  "packedWellFormed node \<Longrightarrow> alter shift node key keyHash f n = Inr (node', n') \<Longrightarrow>
     packedWellFormed node'"
  and "packedWellFormed (PackedNode bitmap children) \<Longrightarrow>
     alterPackedNode shift bitmap children keyHash key f n = Inr (node', n') \<Longrightarrow>
     packedWellFormed node'"
  and "packedWellFormed (ArrayNode nodeSize children) \<Longrightarrow>
     alterArrayNode shift nodeSize children keyHash key f n = Inr (node', n') \<Longrightarrow>
     packedWellFormed node'"
proof (induction shift node key keyHash f n and shift bitmap children keyHash key f n
    and shift nodeSize children keyHash key f n
    arbitrary: node' n' and node' n' and node' n'
    rule: alter_alterPackedNode_alterArrayNode.induct)
  case (1 shift key keyHash alterValue n)
  then show ?case
    by (auto split: prod.splits op.splits)
next
  case (2 shift hash pairs key keyHash alterValue n)
  then show ?case
    by (auto dest: alterCollisionNode_wellFormed)
next
  case (3 shift nodeSize children key keyHash alterValue n)
  then show ?case by simp
next
  case (4 shift bitmap children key keyHash alterValue n)
  then show ?case by simp
next
  case (5 shift hash nodeKey nodeValue key keyHash alterValue n)
  then show ?case
    by (auto dest: alterLeafNode_wellFormed)
next
  case (6 shift bitmap children keyHash key alterValue n)
  define fragment where "fragment = hashFragment shift keyHash"
  define childIndex where "childIndex = popCount (bitmap AND (toMask fragment - 1))"
  note wf = 6(2)
  show ?case
  proof (cases "bitmap AND toMask fragment \<noteq> 0")
    case True
    with 6(3) obtain child newChild where
      c: "js_index children childIndex = Some child"
         "alter (shift + FRAGMENT_SIZE) child key keyHash alterValue n = Inr (newChild, n')"
      and r: "node' = (if newChild = EMPTY_NODE then
                 (if bitmap = toMask fragment then EMPTY_NODE
                  else PackedNode (bitmap XOR toMask fragment) (toSpliced children childIndex))
               else if newChild = child then PackedNode bitmap children
               else PackedNode bitmap (cloneAndSet children childIndex (Some newChild)))"
      by (auto simp: Let_def fragment_def childIndex_def split: option.splits sum.splits if_splits)
    from js_index_wellFormed(1) [OF wf c(1)] have "packedWellFormed child"
      by simp
    have t: "bitmap AND toMask (hashFragment shift keyHash) \<noteq> 0"
      using True by (simp add: fragment_def)
    have ci: "js_index children (popCount (bitmap AND toMask (hashFragment shift keyHash) - 1))
                = Some child"
      using c(1) by (simp add: childIndex_def fragment_def)
    from 6(1) [OF refl refl refl t ci \<open>packedWellFormed child\<close> c(2)]
    have "packedWellFormed newChild" .
    then have "newChild \<noteq> EMPTY_NODE \<longrightarrow> packedWellFormed newChild"
      by simp
    from packed_child_altered [OF wf c(1) this True] wf r show ?thesis
      by (auto split: if_splits)
  next
    case False
    then have z: "bitmap AND toMask (hashFragment shift keyHash) = 0"
      by (simp add: fragment_def)
    from 6(3) z wf show ?thesis
      by (auto simp: Let_def packed_child_inserted [OF wf z] simp del: packedWellFormed.simps
          split: prod.splits op.splits if_splits)
  qed
next
  case (7 shift nodeSize children keyHash key alterValue n)
  define childIndex where "childIndex = hashFragment shift keyHash"
  note wf = 7(2)
  show ?case
  proof (cases "js_index children childIndex")
    case None
    with 7(3) wf show ?thesis
      by (auto simp: Let_def childIndex_def cloneAndSet_def js_assign_all
          split: prod.splits op.splits)
  next
    case (Some child)
    with 7(3) obtain newChild where
      c: "alter (shift + FRAGMENT_SIZE) child key keyHash alterValue n = Inr (newChild, n')"
      and r: "node' = (if newChild = child then ArrayNode nodeSize children
               else if newChild = EMPTY_NODE then
                 (if nodeSize = 1 then EMPTY_NODE
                  else ArrayNode nodeSize (cloneAndSet children childIndex None))
               else ArrayNode nodeSize (cloneAndSet children childIndex (Some newChild)))"
      by (auto simp: Let_def childIndex_def split: option.splits sum.splits if_splits)
    from js_index_wellFormed(2) [OF wf Some] have "packedWellFormed child"
      by simp
    have ci: "js_index children (hashFragment shift keyHash) = Some child"
      using Some by (simp add: childIndex_def)
    from 7(1) [OF refl ci \<open>packedWellFormed child\<close> c]
    have "packedWellFormed newChild" .
    with wf r show ?thesis
      by (auto simp: cloneAndSet_def js_assign_all split: if_splits)
  qed
qed

lemma run_wellFormed:
  "packedWellFormed (root dict) \<Longrightarrow> run hashOf ops dict = Inr d \<Longrightarrow> packedWellFormed (root d)"
proof (induction ops arbitrary: dict)
  case Nil
  then show ?case by simp
next
  case (Cons op ops)
  show ?case
  proof (cases op)
    case (Insert key v)
    with Cons.prems(2) obtain dict' where
      s: "set_dict hashOf dict key v = Inr dict'" and r: "run hashOf ops dict' = Inr d"
      by (auto split: sum.splits)
    from s Cons.prems(1) have "packedWellFormed (root dict')"
      by (auto simp: set_dict_def split: sum.splits dest: alter_wellFormed(1))
    with r show ?thesis by (rule Cons.IH [rotated])
  next
    case (Remove key)
    with Cons.prems(2) obtain dict' where
      s: "remove hashOf dict key = Inr dict'" and r: "run hashOf ops dict' = Inr d"
      by (auto split: sum.splits)
    from s Cons.prems(1) have "packedWellFormed (root dict')"
      by (auto simp: remove_def split: sum.splits dest: alter_wellFormed(1))
    with r show ?thesis by (rule Cons.IH [rotated])
  qed
qed

lemma countChildren_length: "None \<notin> set children \<Longrightarrow> countChildren children = length children"
proof -
  assume "None \<notin> set children"
  then have "filter (\<lambda>c. c \<noteq> None) children = children"
    by (intro filter_True) metis
  then show ?thesis
    by (simp only: countChildren_def)
qed

lemma mergeLeavesLoop_noRedundant:
  "mergeLeavesLoop shift hashA a hashB b = Some merged \<Longrightarrow>
   noRedundantNode a \<longrightarrow> noRedundantNode b \<longrightarrow> noRedundantNode merged \<and> interiorNode merged"
proof (erule mergeLeavesLoop.raw_induct [rotated], goal_cases)
  case (1 loop shift hash node otherHash otherNode merged)
  show ?case
  proof (cases "hashFragment shift hash = hashFragment shift otherHash")
    case True
    with 1(2) obtain child where
      c: "loop (shift + FRAGMENT_SIZE) hash node otherHash otherNode = Some child"
         "merged = PackedNode (toMask (hashFragment shift hash) OR toMask (hashFragment shift otherHash)) [Some child]"
      by (auto simp: Let_def split: bind_splits)
    from 1(1) [OF c(1)] c(2) show ?thesis
      by simp
  next
    case False
    with 1(2) show ?thesis
      by (auto simp: Let_def countChildren_def split: if_splits)
  qed
qed

lemma mergeLeaves_noRedundant:
  assumes "mergeLeaves shift hashA a hashB b = Inr merged"
    and "noRedundantNode a" and "noRedundantNode b"
  shows "noRedundantNode merged \<and> merged \<noteq> EMPTY_NODE"
proof (cases "hashA = hashB")
  case True
  with assms(1) show ?thesis
    by (auto simp: mergeLeaves_def split: node.splits)
next
  case False
  with assms(1) have "mergeLeavesLoop shift hashA a hashB b = Some merged"
    by (auto simp: mergeLeaves_def split: option.splits)
  from mergeLeavesLoop_noRedundant [OF this] assms(2,3) show ?thesis
    by auto
qed

lemma alterLeafNode_noRedundant:
  assumes "\<forall>arg m. fst (f arg m) \<noteq> REMOVE"
    and "alterLeafNode shift hash nodeKey nodeValue keyHash key f n = Inr (node', n')"
  shows "noRedundantNode node' \<and> node' \<noteq> EMPTY_NODE"
proof -
  have i: "f arg m = (REMOVE, m') \<Longrightarrow> False" for arg m m'
    using assms(1) by (metis fst_conv)
  from assms(2) show ?thesis
    by (auto simp: alterLeafNode_def split: if_splits prod.splits op.splits sum.splits
        dest: i mergeLeaves_noRedundant)
qed

lemma alterCollisionNode_noRedundant:
  assumes "\<forall>arg m. fst (f arg m) \<noteq> REMOVE"
    and "alterCollisionNode shift hash pairs keyHash key f n = Inr (node', n')"
  shows "noRedundantNode node' \<and> node' \<noteq> EMPTY_NODE"
proof -
  have i: "f arg m = (REMOVE, m') \<Longrightarrow> False" for arg m m'
    using assms(1) by (metis fst_conv)
  from assms(2) show ?thesis
    by (auto simp: alterCollisionNode_def Let_def
        split: if_splits prod.splits op.splits sum.splits option.splits
        dest: i mergeLeaves_noRedundant)
qed

lemma alterPackedNode_interior:
  assumes "alterPackedNode shift bitmap children keyHash key f n = Inr (node', n')"
  shows "node' = EMPTY_NODE \<and> bitmap = toMask (hashFragment shift keyHash) \<or> interiorNode node'"
  using assms
  by (auto simp: Let_def split: option.splits sum.splits if_splits prod.splits op.splits)

lemma js_index_single:
  "js_index [Some c] i = Some child \<Longrightarrow> i = 0 \<and> child = c"
  by (auto simp: js_index_def split: if_splits)

lemma packed_child_replaced:
  assumes nr: "noRedundantNode (PackedNode bitmap children)"
    and child: "js_index children childIndex = Some child"
    and new: "noRedundantNode newChild" "interiorNode child \<longrightarrow> interiorNode newChild"
  shows "noRedundantNode (PackedNode bitmap (cloneAndSet children childIndex (Some newChild)))"
proof -
  have a: "childrenAll noRedundantNode (cloneAndSet children childIndex (Some newChild))"
    using nr new(1) by (simp add: cloneAndSet_def js_assign_all)
  have "2 \<le> countChildren (cloneAndSet children childIndex (Some newChild))
      \<or> (case cloneAndSet children childIndex (Some newChild) of
            [Some c] \<Rightarrow> interiorNode c | _ \<Rightarrow> False)"
  proof (cases "2 \<le> countChildren children")
    case True
    then show ?thesis
      by (simp add: countChildren_cloneAndSet [OF child])
  next
    case False
    with nr have "case children of [Some c] \<Rightarrow> interiorNode c | _ \<Rightarrow> False"
      by simp
    then obtain c where c: "children = [Some c]" "interiorNode c"
      by (cases children; cases "tl children") (auto split: option.splits)
    with child have "childIndex = 0" "child = c"
      by (auto dest: js_index_single)
    with c new(2) show ?thesis
      by (simp add: cloneAndSet_def js_assign_def)
  qed
  with a show ?thesis
    by simp
qed

lemma packed_leaf_inserted:
  assumes nr: "noRedundantNode (PackedNode bitmap children)"
    and c: "1 \<le> countChildren children"
  shows "noRedundantNode (PackedNode bitmap' (cloneAndInsert children k (Some (LeafNode h k' v))))"
    and "noRedundantNode (ArrayNode size'
           (promoteLoop 0 0 bitmap children (js_assign (replicate 32 None) k (Some (LeafNode h k' v)))))"
proof -
  show "noRedundantNode (PackedNode bitmap' (cloneAndInsert children k (Some (LeafNode h k' v))))"
    using nr c by (simp add: countChildren_cloneAndInsert cloneAndInsert_all)
next
  have "childrenAll noRedundantNode (replicate 32 (None :: ('a, 'b) node option))"
    by (simp add: list_all_iff)
  then show "noRedundantNode (ArrayNode size'
           (promoteLoop 0 0 bitmap children (js_assign (replicate 32 None) k (Some (LeafNode h k' v)))))"
    using nr by (simp add: promoteLoop_all js_assign_all)
qed

lemma alter_noRedundant:
  "\<forall>arg m. fst (f arg m) \<noteq> REMOVE \<Longrightarrow> packedWellFormed node \<Longrightarrow> noRedundantNode node \<Longrightarrow>
     alter shift node key keyHash f n = Inr (node', n') \<Longrightarrow>
     noRedundantNode node' \<and> node' \<noteq> EMPTY_NODE \<and> (interiorNode node \<longrightarrow> interiorNode node')"
  and "\<forall>arg m. fst (f arg m) \<noteq> REMOVE \<Longrightarrow> packedWellFormed (PackedNode bitmap children) \<Longrightarrow>
     noRedundantNode (PackedNode bitmap children) \<Longrightarrow>
     alterPackedNode shift bitmap children keyHash key f n = Inr (node', n') \<Longrightarrow>
     noRedundantNode node' \<and> interiorNode node'"
  and "\<forall>arg m. fst (f arg m) \<noteq> REMOVE \<Longrightarrow> packedWellFormed (ArrayNode nodeSize children) \<Longrightarrow>
     noRedundantNode (ArrayNode nodeSize children) \<Longrightarrow>
     alterArrayNode shift nodeSize children keyHash key f n = Inr (node', n') \<Longrightarrow>
     noRedundantNode node' \<and> interiorNode node'"
proof (induction shift node key keyHash f n and shift bitmap children keyHash key f n
    and shift nodeSize children keyHash key f n
    arbitrary: node' n' and node' n' and node' n'
    rule: alter_alterPackedNode_alterArrayNode.induct)
  case (1 shift key keyHash alterValue n)
  have "alterValue NO_VALUE n = (REMOVE, m') \<Longrightarrow> False" for m'
    using 1(1) by (metis fst_conv)
  with 1(4) show ?case
    by (auto split: prod.splits op.splits)
next
  case (2 shift hash pairs key keyHash alterValue n)
  from 2(4) have "alterCollisionNode shift hash pairs keyHash key alterValue n = Inr (node', n')"
    by simp
  from alterCollisionNode_noRedundant [OF 2(1) this] show ?case
    by simp
next
  case (3 shift nodeSize children key keyHash alterValue n)
  from 3(1) [OF 3(2) 3(3) 3(4)] 3(5) show ?case
    by auto
next
  case (4 shift bitmap children key keyHash alterValue n)
  from 4(1) [OF 4(2) 4(3) 4(4)] 4(5) show ?case
    by auto
next
  case (5 shift hash nodeKey nodeValue key keyHash alterValue n)
  from 5(4) have "alterLeafNode shift hash nodeKey nodeValue keyHash key alterValue n = Inr (node', n')"
    by simp
  from alterLeafNode_noRedundant [OF 5(1) this] show ?case
    by simp
next
  case (6 shift bitmap children keyHash key alterValue n)
  define fragment where "fragment = hashFragment shift keyHash"
  define childIndex where "childIndex = popCount (bitmap AND (toMask fragment - 1))"
  note ins = 6(2) and wf = 6(3) and nr = 6(4)
  have i: "alterValue arg m = (REMOVE, m') \<Longrightarrow> False" for arg m m'
    using ins by (metis fst_conv)
  show ?case
  proof (cases "bitmap AND toMask fragment \<noteq> 0")
    case True
    with 6(5) obtain child newChild where
      c: "js_index children childIndex = Some child"
         "alter (shift + FRAGMENT_SIZE) child key keyHash alterValue n = Inr (newChild, n')"
      and r: "node' = (if newChild = EMPTY_NODE then
                 (if bitmap = toMask fragment then EMPTY_NODE
                  else PackedNode (bitmap XOR toMask fragment) (toSpliced children childIndex))
               else if newChild = child then PackedNode bitmap children
               else PackedNode bitmap (cloneAndSet children childIndex (Some newChild)))"
      by (auto simp: Let_def fragment_def childIndex_def split: option.splits sum.splits if_splits)
    from js_index_wellFormed(1) [OF wf c(1)] have w: "packedWellFormed child"
      by simp
    from nr c(1) have nc: "noRedundantNode child"
      by (auto dest: js_index_all)
    have t: "bitmap AND toMask (hashFragment shift keyHash) \<noteq> 0"
      using True by (simp add: fragment_def)
    have ci: "js_index children (popCount (bitmap AND toMask (hashFragment shift keyHash) - 1))
                = Some child"
      using c(1) by (simp add: childIndex_def fragment_def)
    from 6(1) [OF refl refl refl t ci ins w nc c(2)]
    have n: "noRedundantNode newChild" "newChild \<noteq> EMPTY_NODE"
        "interiorNode child \<longrightarrow> interiorNode newChild"
      by simp_all
    from packed_child_replaced [OF nr c(1) n(1) n(3)] n(2) nr r show ?thesis
      by (auto split: if_splits)
  next
    case False
    then have z: "bitmap AND toMask (hashFragment shift keyHash) = 0"
      by (simp add: fragment_def)
    from wf have "1 \<le> countChildren children"
      by (simp add: no_hole_all countChildren_length)
    note packed_leaf_inserted [OF nr this]
    then show ?thesis
      using 6(5) z
      by (auto simp: Let_def split: prod.splits op.splits if_splits dest: i)
  qed
next
  case (7 shift nodeSize children keyHash key alterValue n)
  define childIndex where "childIndex = hashFragment shift keyHash"
  note ins = 7(2) and wf = 7(3) and nr = 7(4)
  have i: "alterValue arg m = (REMOVE, m') \<Longrightarrow> False" for arg m m'
    using ins by (metis fst_conv)
  show ?case
  proof (cases "js_index children childIndex")
    case None
    with 7(5) nr show ?thesis
      by (auto simp: Let_def childIndex_def cloneAndSet_def js_assign_all
          split: prod.splits op.splits dest: i)
  next
    case (Some child)
    with 7(5) obtain newChild where
      c: "alter (shift + FRAGMENT_SIZE) child key keyHash alterValue n = Inr (newChild, n')"
      and r: "node' = (if newChild = child then ArrayNode nodeSize children
               else if newChild = EMPTY_NODE then
                 (if nodeSize = 1 then EMPTY_NODE
                  else ArrayNode nodeSize (cloneAndSet children childIndex None))
               else ArrayNode nodeSize (cloneAndSet children childIndex (Some newChild)))"
      by (auto simp: Let_def childIndex_def split: option.splits sum.splits if_splits)
    from js_index_wellFormed(2) [OF wf Some] have w: "packedWellFormed child"
      by simp
    from nr Some have nc: "noRedundantNode child"
      by (auto dest: js_index_all)
    have ci: "js_index children (hashFragment shift keyHash) = Some child"
      using Some by (simp add: childIndex_def)
    from 7(1) [OF refl ci ins w nc c]
    have "noRedundantNode newChild" "newChild \<noteq> EMPTY_NODE"
      by simp_all
    with nr r show ?thesis
      by (auto simp: cloneAndSet_def js_assign_all split: if_splits)
  qed
qed

lemma run_noRedundant:
  "insertsOnly ops \<Longrightarrow> packedWellFormed (root dict) \<Longrightarrow> noRedundantNode (root dict) \<Longrightarrow>
   run hashOf ops dict = Inr d \<Longrightarrow> noRedundantNode (root d)"
proof (induction ops arbitrary: dict)
  case Nil
  then show ?case by simp
next
  case (Cons op ops)
  show ?case
  proof (cases op)
    case (Insert key v)
    with Cons.prems(4) obtain dict' where
      s: "set_dict hashOf dict key v = Inr dict'" and r: "run hashOf ops dict' = Inr d"
      by (auto split: sum.splits)
    from s Cons.prems(2) have w: "packedWellFormed (root dict')"
      by (auto simp: set_dict_def split: sum.splits dest: alter_wellFormed(1))
    have "\<forall>arg m. fst ((\<lambda>arg new_size. (INSERT v, if arg = NO_VALUE then new_size + 1 else new_size)) arg m)
        \<noteq> REMOVE"
      by simp
    from alter_noRedundant(1) [OF this Cons.prems(2,3)] s have "noRedundantNode (root dict')"
      by (auto simp: set_dict_def split: sum.splits)
    from Cons.IH [OF _ w this r] Cons.prems(1) Insert show ?thesis
      by simp
  next
    case (Remove key)
    with Cons.prems(1) show ?thesis
      by simp
  qed
qed

text \<open>
  C4, as amended. After every sequence of insert and remove operations that starts from
  the empty dict and returns, every packed node reachable from the root is well formed:
  its array of children has no hole, is as long as its bitmap has bits set, holds at
  least one child, and no child is the empty node. When the sequence holds inserts only,
  every packed node reachable from the root, the root included, has at least two
  children or a single child that is a packed or an array node, the chain that a merge
  builds. Altering a packed node gives the empty node only when its last child goes, and
  a packed or an array node otherwise, never a leaf or a collision node: the packed node
  that a removal leaves with a single leaf stays.
\<close>

theorem packed_nodes_after_updates:
  "(run hashOf ops empty_dict = Inr d \<longrightarrow>
      packedWellFormed (root d) \<and> (insertsOnly ops \<longrightarrow> noRedundantNode (root d)))
   \<and> (alterPackedNode shift bitmap children keyHash key f n = Inr (node', n') \<longrightarrow>
        node' = EMPTY_NODE \<and> bitmap = toMask (hashFragment shift keyHash) \<or> interiorNode node')"
proof -
  have e: "packedWellFormed (root (empty_dict :: ('a, 'b) dict))"
      "noRedundantNode (root (empty_dict :: ('a, 'b) dict))"
    by (simp_all add: empty_dict_def)
  have "packedWellFormed (root d)" if "run hashOf ops empty_dict = Inr d"
    using run_wellFormed [OF e(1) that] .
  moreover have "noRedundantNode (root d)" if "run hashOf ops empty_dict = Inr d" "insertsOnly ops"
    using run_noRedundant [OF that(2) e that(1)] .
  ultimately show ?thesis
    using alterPackedNode_interior [of shift bitmap children keyHash key f n node' n'] by blast
qed

lemma singleChildDict_built:
  "run hashString [Insert [0x41] 1, Insert [0x61] 2, Insert [0x62] 3, Remove [0x61]] empty_dict
     = Inr singleChildDict"
  by (simp add: evaluation singleChildDict_def)

lemma threeKeysDict_built:
  "run hashString [Insert [0x41] 1, Insert [0x61] 2, Insert [0x62] 3] empty_dict
     = Inr threeKeysDict"
  by (simp add: evaluation threeKeysDict_def)

lemma leaf_removed_from_packed_node:
  "alterPackedNode 5 12 [Some (LeafNode 65 [0x41] 1), Some (LeafNode 97 [0x61] 2)] 97 [0x61]
     (\<lambda>arg new_size. (REMOVE, if arg \<noteq> NO_VALUE then new_size - 1 else new_size)) 3
   = Inr (PackedNode 4 [Some (LeafNode 65 [0x41] (1 :: nat))], 2)"
  by (simp add: evaluation)

text \<open>
  Witness of C4 as amended: the dict after inserting "A", "a" and "b", whose packed
  nodes have two children each; and the removal of "a" from the packed node below its
  root, which returns that node with the single leaf "A".
\<close>

theorem packed_nodes_after_updates_witness:
  "run hashString [Insert [0x41] 1, Insert [0x61] 2, Insert [0x62] 3] empty_dict = Inr threeKeysDict
   \<and> insertsOnly [Insert [0x41] (1 :: nat), Insert [0x61] 2, Insert [0x62] 3]
   \<and> packedWellFormed (root threeKeysDict) \<and> noRedundantNode (root threeKeysDict)
   \<and> alterPackedNode 5 12 [Some (LeafNode 65 [0x41] 1), Some (LeafNode 97 [0x61] 2)] 97 [0x61]
        (\<lambda>arg new_size. (REMOVE, if arg \<noteq> NO_VALUE then new_size - 1 else new_size)) 3
      = Inr (PackedNode 4 [Some (LeafNode 65 [0x41] (1 :: nat))], 2)
   \<and> interiorNode (PackedNode 4 [Some (LeafNode 65 [0x41] (1 :: nat))])"
  using packed_nodes_after_updates [of hashString
      "[Insert [0x41] 1, Insert [0x61] 2, Insert [0x62] 3]" threeKeysDict
      5 12 "[Some (LeafNode 65 [0x41] 1), Some (LeafNode 97 [0x61] 2)]" 97 "[0x61]"
      "\<lambda>arg new_size. (REMOVE, if arg \<noteq> NO_VALUE then new_size - 1 else new_size)" 3
      "PackedNode 4 [Some (LeafNode 65 [0x41] 1)]" 2]
    threeKeysDict_built leaf_removed_from_packed_node
  by simp

text \<open>
  Counterexample to C4 as stated: in the dict after inserting "A", "a" and "b" and
  removing "a" the packed node below the root has one child, a leaf, left there by the
  removal: \<^verbatim>\<open>alterPackedNode\<close> drops the emptied child and keeps the node.
\<close>

theorem single_child_below_root_counterexample:
  "run hashString [Insert [0x41] 1, Insert [0x61] 2, Insert [0x62] 3, Remove [0x61]] empty_dict
     = Inr singleChildDict
   \<and> \<not> noRedundantBelowRoot (root singleChildDict)"
  by (simp add: evaluation singleChildDict_def noRedundantBelowRoot_def countChildren_def)

section \<open>Where no collision node is met\<close>

text \<open>
  The three properties that fail on a collision node hold where the calls return.
  First, \<^verbatim>\<open>alter\<close> calls \<^verbatim>\<open>alterValue\<close> once, with what \<^verbatim>\<open>find\<close> gives for the key;
  so the sizes after \<^verbatim>\<open>insert\<close> and \<^verbatim>\<open>remove\<close> are those of C2 whenever the two
  calls and \<^verbatim>\<open>hasKey\<close> return.
\<close>

lemma findInPairs_findPair:
  "findInPairs key pairs =
     (case findPair key pairs i of
        Inl e \<Rightarrow> Inl e
      | Inr None \<Rightarrow> Inr None
      | Inr (Some (valueIndex, v)) \<Rightarrow> Inr (Some v))"
proof (induction pairs arbitrary: i)
  case Nil
  show ?case by simp
next
  case (Cons p pairs)
  show ?case
    using Cons.IH [of "Suc i"]
    by (cases "destructure p") (auto split: sum.splits option.splits prod.splits)
qed

lemma findLoop_packed_child:
  assumes "bitmap AND toMask (hashFragment shift keyHash) \<noteq> 0"
    and "js_index children (popCount (bitmap AND (toMask (hashFragment shift keyHash) - 1)))
           = Some child"
  shows "findLoop shift keyHash key (PackedNode bitmap children)
           = findLoop (shift + FRAGMENT_SIZE) keyHash key child"
  using assms by (cases child) (simp_all add: Let_def toMask_def)

lemma findLoop_packed_absent:
  assumes "bitmap AND toMask (hashFragment shift keyHash) = 0"
  shows "findLoop shift keyHash key (PackedNode bitmap children) = Inr None"
  using assms by (simp add: Let_def toMask_def)

lemma findLoop_array_child:
  assumes "js_index children (hashFragment shift keyHash) = Some child"
  shows "findLoop shift keyHash key (ArrayNode nodeSize children)
           = findLoop (shift + FRAGMENT_SIZE) keyHash key child"
  using assms by (cases child) (simp_all add: Let_def)

lemma alterCollisionNode_calls_alterValue:
  assumes "alterCollisionNode shift hash pairs keyHash key f n = Inr (node', n')"
    and "findLoop shift keyHash key (CollisionNode hash pairs) = Inr found"
  shows "snd (f (argOf found) n) = n'"
proof (cases "keyHash = hash")
  case False
  with assms show ?thesis
    by (auto simp: alterCollisionNode_def argOf_def split: prod.splits op.splits sum.splits)
next
  case True
  with assms findInPairs_findPair [of key pairs 0] show ?thesis
    by (auto simp: alterCollisionNode_def argOf_def Let_def
        split: prod.splits op.splits sum.splits option.splits if_splits)
qed

lemma alter_calls_alterValue:
  "alter shift node key keyHash f n = Inr (node', n') \<Longrightarrow>
     findLoop shift keyHash key node = Inr found \<Longrightarrow> snd (f (argOf found) n) = n'"
  and "alterPackedNode shift bitmap children keyHash key f n = Inr (node', n') \<Longrightarrow>
     findLoop shift keyHash key (PackedNode bitmap children) = Inr found \<Longrightarrow>
     snd (f (argOf found) n) = n'"
  and "alterArrayNode shift nodeSize children keyHash key f n = Inr (node', n') \<Longrightarrow>
     findLoop shift keyHash key (ArrayNode nodeSize children) = Inr found \<Longrightarrow>
     snd (f (argOf found) n) = n'"
proof (induction shift node key keyHash f n and shift bitmap children keyHash key f n
    and shift nodeSize children keyHash key f n
    arbitrary: node' n' found and node' n' found and node' n' found
    rule: alter_alterPackedNode_alterArrayNode.induct)
  case (1 shift key keyHash alterValue n)
  then show ?case
    by (auto simp: argOf_def split: prod.splits op.splits)
next
  case (2 shift hash pairs key keyHash alterValue n)
  then show ?case
    using alterCollisionNode_calls_alterValue by fastforce
next
  case (3 shift nodeSize children key keyHash alterValue n)
  then show ?case by simp
next
  case (4 shift bitmap children key keyHash alterValue n)
  then show ?case by simp
next
  case (5 shift hash nodeKey nodeValue key keyHash alterValue n)
  then show ?case
    by (auto simp: alterLeafNode_def argOf_def split: prod.splits op.splits sum.splits if_splits)
next
  case (6 shift bitmap children keyHash key alterValue n)
  show ?case
  proof (cases "bitmap AND toMask (hashFragment shift keyHash) \<noteq> 0")
    case True
    with 6(2) obtain child newChild where
      ci: "js_index children (popCount (bitmap AND toMask (hashFragment shift keyHash) - 1))
             = Some child"
      and c: "alter (shift + FRAGMENT_SIZE) child key keyHash alterValue n = Inr (newChild, n')"
      by (auto simp: Let_def split: option.splits sum.splits if_splits)
    from 6(3) findLoop_packed_child [OF True ci]
    have "findLoop (shift + FRAGMENT_SIZE) keyHash key child = Inr found"
      by (simp del: findLoop.simps)
    from 6(1) [OF refl refl refl True ci c this] show ?thesis .
  next
    case False
    then have z: "bitmap AND toMask (hashFragment shift keyHash) = 0" by simp
    from 6(3) findLoop_packed_absent [OF z, of key children] have "found = None"
      by (simp del: findLoop.simps)
    with 6(2) z show ?thesis
      by (auto simp: Let_def argOf_def split: prod.splits op.splits if_splits)
  qed
next
  case (7 shift nodeSize children keyHash key alterValue n)
  show ?case
  proof (cases "js_index children (hashFragment shift keyHash)")
    case None
    with 7(3) have "found = None" by (simp add: Let_def)
    with 7(2) None show ?thesis
      by (auto simp: Let_def argOf_def split: prod.splits op.splits)
  next
    case (Some child)
    with 7(2) obtain newChild where
      c: "alter (shift + FRAGMENT_SIZE) child key keyHash alterValue n = Inr (newChild, n')"
      by (auto simp: Let_def split: sum.splits if_splits)
    from 7(3) findLoop_array_child [OF Some]
    have "findLoop (shift + FRAGMENT_SIZE) keyHash key child = Inr found"
      by (simp del: findLoop.simps)
    from 7(1) [OF refl Some c this] show ?thesis .
  qed
qed

lemma set_dict_size:
  assumes "set_dict hashOf m k v = Inr m'" and "hasKey hashOf m k = Inr present"
  shows "size_dict m' = size_dict m + (if present then 0 else 1)"
proof -
  from assms(2) obtain found where
    f: "findLoop 0 (hashOf k) k (root m) = Inr found" and p: "present = (found \<noteq> None)"
    by (auto simp: hasKey_def find_node_def split: sum.splits)
  from assms(1) obtain new_root where
    "alter 0 (root m) k (hashOf k)
       (\<lambda>arg new_size. (INSERT v, if arg = NO_VALUE then new_size + 1 else new_size))
       (size_field m) = Inr (new_root, size_field m')"
    by (auto simp: set_dict_def split: sum.splits)
  from alter_calls_alterValue(1) [OF this f] p show ?thesis
    by (auto simp: size_dict_def argOf_def split: option.splits)
qed

lemma remove_size:
  assumes "remove hashOf m k = Inr m'" and "hasKey hashOf m k = Inr present"
  shows "size_dict m' = size_dict m - (if present then 1 else 0)"
proof -
  from assms(2) obtain found where
    f: "findLoop 0 (hashOf k) k (root m) = Inr found" and p: "present = (found \<noteq> None)"
    by (auto simp: hasKey_def find_node_def split: sum.splits)
  from assms(1) obtain new_root where
    "alter 0 (root m) k (hashOf k)
       (\<lambda>arg new_size. (REMOVE, if arg \<noteq> NO_VALUE then new_size - 1 else new_size))
       (size_field m) = Inr (new_root, size_field m')"
    by (auto simp: remove_def split: sum.splits)
  from alter_calls_alterValue(1) [OF this f] p show ?thesis
    by (auto simp: size_dict_def argOf_def split: option.splits)
qed

text \<open>
  \<^verbatim>\<open>remove\<close> of a key that \<^verbatim>\<open>hasKey\<close> reports absent returns the dict as it is, on
  every dict built from the empty one (C7 where the call returns).
\<close>

lemma alterCollisionNode_absent:
  assumes "findLoop shift keyHash key (CollisionNode hash pairs) = Inr None"
    and "f NO_VALUE n = (REMOVE, n')"
  shows "alterCollisionNode shift hash pairs keyHash key f n = Inr (CollisionNode hash pairs, n')"
proof (cases "keyHash = hash")
  case False
  with assms show ?thesis
    by (simp add: alterCollisionNode_def)
next
  case True
  with assms findInPairs_findPair [of key pairs 0] show ?thesis
    by (auto simp: alterCollisionNode_def split: sum.splits option.splits prod.splits)
qed

lemma alter_absent_unchanged:
  "packedWellFormed node \<Longrightarrow> findLoop shift keyHash key node = Inr None \<Longrightarrow>
     f NO_VALUE n = (REMOVE, n') \<Longrightarrow> alter shift node key keyHash f n = Inr (node, n')"
  and "packedWellFormed (PackedNode bitmap children) \<Longrightarrow>
     findLoop shift keyHash key (PackedNode bitmap children) = Inr None \<Longrightarrow>
     f NO_VALUE n = (REMOVE, n') \<Longrightarrow>
     alterPackedNode shift bitmap children keyHash key f n = Inr (PackedNode bitmap children, n')"
  and "packedWellFormed (ArrayNode nodeSize children) \<Longrightarrow>
     findLoop shift keyHash key (ArrayNode nodeSize children) = Inr None \<Longrightarrow>
     f NO_VALUE n = (REMOVE, n') \<Longrightarrow>
     alterArrayNode shift nodeSize children keyHash key f n = Inr (ArrayNode nodeSize children, n')"
proof (induction shift node key keyHash f n and shift bitmap children keyHash key f n
    and shift nodeSize children keyHash key f n
    arbitrary: n' and n' and n'
    rule: alter_alterPackedNode_alterArrayNode.induct)
  case (1 shift key keyHash alterValue n)
  then show ?case by simp
next
  case (2 shift hash pairs key keyHash alterValue n)
  from alterCollisionNode_absent [where f = alterValue, OF 2(2) 2(3)] show ?case by simp
next
  case (3 shift nodeSize children key keyHash alterValue n)
  then show ?case by simp
next
  case (4 shift bitmap children key keyHash alterValue n)
  then show ?case by simp
next
  case (5 shift hash nodeKey nodeValue key keyHash alterValue n)
  then show ?case
    by (auto simp: alterLeafNode_def split: if_splits)
next
  case (6 shift bitmap children keyHash key alterValue n)
  show ?case
  proof (cases "bitmap AND toMask (hashFragment shift keyHash) \<noteq> 0")
    case True
    from 6(3) True obtain child where
      ci: "js_index children (popCount (bitmap AND toMask (hashFragment shift keyHash) - 1))
             = Some child"
      by (cases "js_index children (popCount (bitmap AND toMask (hashFragment shift keyHash) - 1))")
        (auto simp: Let_def toMask_def)
    from 6(3) findLoop_packed_child [OF True ci, of key]
    have f: "findLoop (shift + FRAGMENT_SIZE) keyHash key child = Inr None"
      by (simp del: findLoop.simps)
    from js_index_wellFormed(1) [OF 6(2) ci] have c: "child \<noteq> EMPTY_NODE \<and> packedWellFormed child" .
    then have "packedWellFormed child" ..
    from 6(1) [OF refl refl refl True ci this f 6(4)]
    have "alter (shift + FRAGMENT_SIZE) child key keyHash alterValue n = Inr (child, n')" .
    with True ci c show ?thesis
      by (simp add: Let_def)
  next
    case False
    with 6(4) show ?thesis
      by (simp add: Let_def)
  qed
next
  case (7 shift nodeSize children keyHash key alterValue n)
  show ?case
  proof (cases "js_index children (hashFragment shift keyHash)")
    case None
    with 7(4) show ?thesis
      by (simp add: Let_def)
  next
    case (Some child)
    from 7(3) findLoop_array_child [OF Some, of key nodeSize]
    have f: "findLoop (shift + FRAGMENT_SIZE) keyHash key child = Inr None"
      by (simp del: findLoop.simps)
    from js_index_wellFormed(2) [OF 7(2) Some] have "child \<noteq> EMPTY_NODE \<and> packedWellFormed child" .
    then have "packedWellFormed child" ..
    from 7(1) [OF refl Some this f 7(4)]
    have "alter (shift + FRAGMENT_SIZE) child key keyHash alterValue n = Inr (child, n')" .
    with Some show ?thesis
      by (simp add: Let_def)
  qed
qed

lemma remove_absent_unchanged:
  assumes "run hashOf ops empty_dict = Inr m" and "hasKey hashOf m k = Inr False"
  shows "remove hashOf m k = Inr m"
proof -
  from assms(2) have f: "findLoop 0 (hashOf k) k (root m) = Inr None"
    by (auto simp: hasKey_def find_node_def split: sum.splits)
  have "alter 0 (root m) k (hashOf k)
          (\<lambda>arg new_size. (REMOVE, if arg \<noteq> NO_VALUE then new_size - 1 else new_size))
          (size_field m) = Inr (root m, size_field m)"
    by (rule alter_absent_unchanged(1) [OF run_wellFormed [OF _ assms(1)] f])
      (simp_all add: empty_dict_def)
  then show ?thesis
    by (simp add: remove_def)
qed

text \<open>
  \<^verbatim>\<open>get\<close> after \<^verbatim>\<open>insert\<close> finds the value (C1) on every dict built from the empty
  one when no two keys share a hash. The position of a child follows from \<^verbatim>\<open>popCount\<close>
  of a single bit and of 0 only: the bits below the fragment are the same before and
  after the bit of the fragment is set.
\<close>

lemma popCount_zero: "popCount 0 = 0"
  by (simp add: popCount_def)

lemma popCount_toMask:
  assumes "f < 32"
  shows "popCount (toMask f) = 1"
proof -
  have "\<forall>f\<in>{..<32 :: nat}. popCount (toMask f) = 1"
    by (simp add: lessThan_nat_numeral popCount_def toMask_def)
  with assms show ?thesis by simp
qed

lemma toMask_minus_1: "f < 32 \<Longrightarrow> toMask f - 1 = mask f"
  by (simp add: toMask_def mask_eq_exp_minus_1)

lemma bit_toMask_minus_1: "f < 32 \<Longrightarrow> bit (toMask f - 1) i \<longleftrightarrow> i < f"
  by (auto simp: toMask_minus_1 bit_mask_iff possible_bit_word)

lemma toMask_nonzero: "toMask f \<noteq> 0"
proof
  assume "toMask f = 0"
  then have "bit (toMask f) (f mod 32) = bit (0 :: int32) (f mod 32)" by simp
  then show False by (simp add: bit_toMask)
qed

lemma or_toMask_and_toMask: "(bitmap OR toMask f) AND toMask f \<noteq> 0"
proof -
  have "bit ((bitmap OR toMask f) AND toMask f) (f mod 32)"
    by (simp add: bit_and_iff bit_or_iff bit_toMask)
  then show ?thesis by auto
qed

lemma or_toMask_below:
  assumes "f < 32"
  shows "(bitmap OR toMask f) AND (toMask f - 1) = bitmap AND (toMask f - 1)"
  using assms
  by (intro bit_word_eqI) (auto simp: bit_and_iff bit_or_iff bit_toMask bit_toMask_minus_1)

lemma two_masks_below:
  assumes "f < 32" and "g < 32" and "f \<noteq> g"
  shows "(toMask f OR toMask g) AND (toMask g - 1) = (if f < g then toMask f else 0)"
  using assms
  by (intro bit_word_eqI) (auto simp: bit_and_iff bit_or_iff bit_toMask bit_toMask_minus_1)

lemma one_mask_below:
  assumes "f < 32"
  shows "toMask f AND (toMask f - 1) = 0"
  using assms
  by (intro bit_word_eqI) (auto simp: bit_and_iff bit_toMask bit_toMask_minus_1)

lemma js_index_cloneAndInsert: "js_index (cloneAndInsert children i v) i = v"
  by (auto simp: js_index_def cloneAndInsert_def nth_append)

lemma js_index_js_assign: "js_index (js_assign children i v) i = v"
  by (auto simp: js_index_def js_assign_def nth_append)

lemma js_index_js_assign_other:
  "p \<noteq> i \<Longrightarrow> js_index (js_assign children i v) p = js_index children p"
  by (auto simp: js_index_def js_assign_def nth_append nth_Cons split: nat.splits)

lemma promoteLoop_keeps:
  "p < i \<or> \<not> bit bitmap (p - i) \<Longrightarrow>
   js_index (promoteLoop i j bitmap nodeChildren children) p = js_index children p"
proof (induction i j bitmap nodeChildren children rule: promoteLoop.induct)
  case (1 i j bitmap nodeChildren children)
  show ?case
  proof (cases "i < 32")
    case False
    then show ?thesis by (subst promoteLoop.simps) simp
  next
    case True
    have next_ok: "p < Suc i \<or> \<not> bit (drop_bit 1 bitmap) (p - Suc i)"
      using 1(3) by (cases "p \<le> i") (auto simp: bit_drop_bit_eq Suc_diff_Suc not_le)
    show ?thesis
    proof (cases "bitmap AND 1 \<noteq> 0")
      case set: True
      then have "bit bitmap 0"
        by (simp add: and_one_eq bit_0 mod_2_eq_odd)
      with 1(3) have "p \<noteq> i" by auto
      with 1(1) [OF True set next_ok] True set show ?thesis
        by (subst promoteLoop.simps) (simp add: js_index_js_assign_other)
    next
      case clear: False
      with 1(2) [OF True clear next_ok] True show ?thesis
        by (subst promoteLoop.simps) simp
    qed
  qed
qed

lemma findLoop_leaf_same_key:
  "findLoop shift keyHash key (LeafNode hash key v) = Inr (Some v)"
  by (simp add: isEqual_def)

lemma mergeLeavesLoop_find:
  "mergeLeavesLoop shift hashA a keyHash leaf = Some merged \<Longrightarrow>
   leaf = LeafNode keyHash key v \<longrightarrow> findLoop shift keyHash key merged = Inr (Some v)"
proof (erule mergeLeavesLoop.raw_induct [rotated], goal_cases)
  case (1 loop shift hash node otherHash otherNode merged)
  let ?f = "hashFragment shift hash" and ?g = "hashFragment shift otherHash"
  have l: "?f < 32" "?g < 32"
    using hashFragment_less by simp_all
  show ?case
  proof
    assume leaf: "otherNode = LeafNode otherHash key v"
    show "findLoop shift otherHash key merged = Inr (Some v)"
    proof (cases "?f = ?g")
      case True
      with 1(2) obtain child where
        c: "loop (shift + FRAGMENT_SIZE) hash node otherHash otherNode = Some child"
        and m: "merged = PackedNode (toMask ?g) [Some child]"
        by (auto simp: Let_def split: bind_splits)
      from 1(1) [OF c] leaf
      have "findLoop (shift + FRAGMENT_SIZE) otherHash key child = Inr (Some v)"
        by simp
      moreover have "toMask ?g AND toMask ?g \<noteq> 0"
        using toMask_nonzero by simp
      moreover have "js_index [Some child] (popCount (toMask ?g AND (toMask ?g - 1))) = Some child"
        using l by (simp add: one_mask_below popCount_zero js_index_def)
      ultimately show ?thesis
        unfolding m using findLoop_packed_child [of "toMask ?g" shift otherHash "[Some child]" child key]
        by (simp del: findLoop.simps)
    next
      case False
      show ?thesis
      proof (cases "?f < ?g")
        case True
        with 1(2) False have m: "merged = PackedNode (toMask ?f OR toMask ?g) [Some node, Some otherNode]"
          by (simp add: Let_def)
        have "js_index [Some node, Some otherNode]
                (popCount ((toMask ?f OR toMask ?g) AND (toMask ?g - 1))) = Some otherNode"
          using l False True by (simp add: two_masks_below popCount_toMask js_index_def)
        with findLoop_packed_child [OF or_toMask_and_toMask this, of key] leaf m show ?thesis
          by (simp del: findLoop.simps add: findLoop_leaf_same_key)
      next
        case notless: False
        with 1(2) False have m: "merged = PackedNode (toMask ?f OR toMask ?g) [Some otherNode, Some node]"
          by (simp add: Let_def)
        have "js_index [Some otherNode, Some node]
                (popCount ((toMask ?f OR toMask ?g) AND (toMask ?g - 1))) = Some otherNode"
          using l False notless by (simp add: two_masks_below popCount_zero js_index_def)
        with findLoop_packed_child [OF or_toMask_and_toMask this, of key] leaf m show ?thesis
          by (simp del: findLoop.simps add: findLoop_leaf_same_key)
      qed
    qed
  qed
qed

lemma mergeLeavesLoop_not_empty:
  "mergeLeavesLoop shift hashA a hashB b = Some merged \<Longrightarrow> merged \<noteq> EMPTY_NODE"
  by (subst (asm) mergeLeavesLoop.simps) (auto simp: Let_def split: if_splits bind_splits)

lemma mergeLeaves_find:
  assumes "mergeLeaves shift hash node keyHash (LeafNode keyHash key v) = Inr merged"
    and "node = LeafNode hash nodeKey nodeValue \<or> node = CollisionNode hash pairs"
  shows "merged \<noteq> EMPTY_NODE
         \<and> (hashedLeaves hashOf merged \<longrightarrow> findLoop shift keyHash key merged = Inr (Some v))"
proof (cases "hash = keyHash")
  case True
  with assms show ?thesis
    by (auto simp: mergeLeaves_def)
next
  case False
  with assms(1) have m: "mergeLeavesLoop shift hash node keyHash (LeafNode keyHash key v) = Some merged"
    by (auto simp: mergeLeaves_def split: option.splits)
  from mergeLeavesLoop_find [OF m] mergeLeavesLoop_not_empty [OF m] show ?thesis
    by simp
qed

lemma alterCollisionNode_find:
  assumes "alterCollisionNode shift hash pairs keyHash key f n = Inr (node', n')"
    and "\<And>arg m. fst (f arg m) = INSERT v"
  shows "node' \<noteq> EMPTY_NODE
         \<and> (hashedLeaves hashOf node' \<longrightarrow> findLoop shift keyHash key node' = Inr (Some v))"
proof -
  have i: "f arg m = (op, m') \<Longrightarrow> op = INSERT v" for arg m op m'
    using assms(2) [of arg m] by simp
  show ?thesis
  proof (cases "keyHash = hash")
    case False
    with assms(1) obtain m where
      "mergeLeaves shift hash (CollisionNode hash pairs) keyHash (LeafNode keyHash key v) = Inr node'"
      by (auto simp: alterCollisionNode_def split: prod.splits op.splits sum.splits dest: i)
    from mergeLeaves_find [OF this] show ?thesis by simp
  next
    case True
    with assms(1) have "\<exists>newPairs. node' = CollisionNode hash newPairs"
      by (auto simp: alterCollisionNode_def mergeLeaves_def Let_def
          split: prod.splits op.splits sum.splits option.splits if_splits dest: i)
    then show ?thesis by auto
  qed
qed

lemma alterLeafNode_find:
  assumes "alterLeafNode shift hash nodeKey nodeValue keyHash key f n = Inr (node', n')"
    and "\<And>arg m. fst (f arg m) = INSERT v"
  shows "node' \<noteq> EMPTY_NODE
         \<and> (hashedLeaves hashOf node' \<longrightarrow> findLoop shift keyHash key node' = Inr (Some v))"
proof -
  have i: "f arg m = (op, m') \<Longrightarrow> op = INSERT v" for arg m op m'
    using assms(2) [of arg m] by simp
  show ?thesis
  proof (cases "isEqual key nodeKey")
    case True
    with assms(1) have "node' = LeafNode hash nodeKey v"
      by (auto simp: alterLeafNode_def split: prod.splits op.splits dest: i)
    with True show ?thesis by simp
  next
    case False
    with assms(1) have
      "mergeLeaves shift hash (LeafNode hash nodeKey nodeValue) keyHash (LeafNode keyHash key v)
         = Inr node'"
      by (auto simp: alterLeafNode_def split: prod.splits op.splits sum.splits dest: i)
    from mergeLeaves_find [OF this] show ?thesis by simp
  qed
qed

lemma alter_find:
  "alter shift node key keyHash f n = Inr (node', n') \<Longrightarrow>
     (\<And>arg m. fst (f arg m) = INSERT v) \<Longrightarrow>
     node' \<noteq> EMPTY_NODE
     \<and> (hashedLeaves hashOf node' \<longrightarrow> findLoop shift keyHash key node' = Inr (Some v))"
  and "alterPackedNode shift bitmap children keyHash key f n = Inr (node', n') \<Longrightarrow>
     (\<And>arg m. fst (f arg m) = INSERT v) \<Longrightarrow>
     node' \<noteq> EMPTY_NODE
     \<and> (hashedLeaves hashOf node' \<longrightarrow> findLoop shift keyHash key node' = Inr (Some v))"
  and "alterArrayNode shift nodeSize children keyHash key f n = Inr (node', n') \<Longrightarrow>
     (\<And>arg m. fst (f arg m) = INSERT v) \<Longrightarrow>
     node' \<noteq> EMPTY_NODE
     \<and> (hashedLeaves hashOf node' \<longrightarrow> findLoop shift keyHash key node' = Inr (Some v))"
proof (induction shift node key keyHash f n and shift bitmap children keyHash key f n
    and shift nodeSize children keyHash key f n
    arbitrary: node' n' and node' n' and node' n'
    rule: alter_alterPackedNode_alterArrayNode.induct)
  case (1 shift key keyHash alterValue n)
  from 1(2) [of NO_VALUE n] 1(1) have "node' = LeafNode keyHash key v"
    by (auto split: prod.splits op.splits)
  then show ?case by (simp add: isEqual_def)
next
  case (2 shift hash pairs key keyHash alterValue n)
  from alterCollisionNode_find [of shift hash pairs keyHash key alterValue n node' n' v hashOf] 2
  show ?case by simp
next
  case (3 shift nodeSize children key keyHash alterValue n)
  from 3(1) [OF _ 3(3)] 3(2) show ?case by simp
next
  case (4 shift bitmap children key keyHash alterValue n)
  from 4(1) [OF _ 4(3)] 4(2) show ?case by simp
next
  case (5 shift hash nodeKey nodeValue key keyHash alterValue n)
  from alterLeafNode_find [of shift hash nodeKey nodeValue keyHash key alterValue n node' n' v hashOf] 5
  show ?case by simp
next
  case (6 shift bitmap children keyHash key alterValue n)
  let ?fragment = "hashFragment shift keyHash"
  let ?childIndex = "popCount (bitmap AND toMask ?fragment - 1)"
  have fl: "?fragment < 32" by (rule hashFragment_less)
  show ?case
  proof (cases "bitmap AND toMask ?fragment \<noteq> 0")
    case True
    with 6(2) obtain child newChild where
      ci: "js_index children ?childIndex = Some child"
      and c: "alter (shift + FRAGMENT_SIZE) child key keyHash alterValue n = Inr (newChild, n')"
      by (auto simp: Let_def split: option.splits sum.splits if_splits)
    from 6(1) [OF refl refl refl True ci c 6(3)]
    have ih: "newChild \<noteq> EMPTY_NODE"
      "hashedLeaves hashOf newChild \<Longrightarrow>
         findLoop (shift + FRAGMENT_SIZE) keyHash key newChild = Inr (Some v)"
      by simp_all
    show ?thesis
    proof (cases "newChild = child")
      case same: True
      with 6(2) True ci c ih(1) have n: "node' = PackedNode bitmap children"
        by (simp add: Let_def)
      have "findLoop shift keyHash key (PackedNode bitmap children) = Inr (Some v)"
        if "hashedLeaves hashOf (PackedNode bitmap children)"
      proof -
        from that ci have "hashedLeaves hashOf child"
          by (auto dest: js_index_all)
        with ih(2) same findLoop_packed_child [OF True ci, of key] show ?thesis
          by (simp del: findLoop.simps)
      qed
      with n show ?thesis by simp
    next
      case other: False
      let ?children = "cloneAndSet children ?childIndex (Some newChild)"
      from 6(2) True ci c ih(1) other have n: "node' = PackedNode bitmap ?children"
        by (simp add: Let_def)
      have cj: "js_index ?children ?childIndex = Some newChild"
        by (simp add: cloneAndSet_def js_index_js_assign)
      have "findLoop shift keyHash key (PackedNode bitmap ?children) = Inr (Some v)"
        if "hashedLeaves hashOf (PackedNode bitmap ?children)"
      proof -
        from that cj have "hashedLeaves hashOf newChild"
          by (auto dest: js_index_all)
        with ih(2) findLoop_packed_child [OF True cj, of key] show ?thesis
          by (simp del: findLoop.simps)
      qed
      with n show ?thesis by simp
    qed
  next
    case False
    then have z: "bitmap AND toMask ?fragment = 0" by simp
    from 6(3) [of NO_VALUE n] obtain n'' where f: "alterValue NO_VALUE n = (INSERT v, n'')"
      by (cases "alterValue NO_VALUE n") simp
    let ?leaf = "LeafNode keyHash key v"
    show ?thesis
    proof (cases "MAX_CHILDREN_IN_PACKED_NODE \<le> length children")
      case True
      let ?children = "promoteLoop 0 0 bitmap children
          (js_assign (replicate 32 None) ?fragment (Some ?leaf))"
      from 6(2) z f True have n: "node' = ArrayNode (int (length children) + 1) ?children"
        by (simp add: Let_def)
      from z fl have "\<not> bit bitmap (?fragment - 0)"
        by (simp add: and_toMask_zero)
      then have "js_index ?children ?fragment = Some ?leaf"
        by (simp add: promoteLoop_keeps js_index_js_assign)
      from findLoop_array_child [OF this, of key] n show ?thesis
        by (simp del: findLoop.simps add: findLoop_leaf_same_key)
    next
      case notfull: False
      let ?children = "cloneAndInsert children ?childIndex (Some ?leaf)"
      from 6(2) z f notfull have n: "node' = PackedNode (bitmap OR toMask ?fragment) ?children"
        by (simp add: Let_def)
      have "js_index ?children
              (popCount ((bitmap OR toMask ?fragment) AND toMask ?fragment - 1)) = Some ?leaf"
        using fl by (simp add: or_toMask_below js_index_cloneAndInsert)
      from findLoop_packed_child [OF or_toMask_and_toMask this, of key] n show ?thesis
        by (simp del: findLoop.simps add: findLoop_leaf_same_key)
    qed
  qed
next
  case (7 shift nodeSize children keyHash key alterValue n)
  let ?childIndex = "hashFragment shift keyHash"
  show ?case
  proof (cases "js_index children ?childIndex")
    case None
    from 7(3) [of NO_VALUE n] obtain n'' where f: "alterValue NO_VALUE n = (INSERT v, n'')"
      by (cases "alterValue NO_VALUE n") simp
    let ?children = "cloneAndSet children ?childIndex (Some (LeafNode keyHash key v))"
    from 7(2) None f have n: "node' = ArrayNode (nodeSize + 1) ?children"
      by (simp add: Let_def)
    have "js_index ?children ?childIndex = Some (LeafNode keyHash key v)"
      by (simp add: cloneAndSet_def js_index_js_assign)
    from findLoop_array_child [OF this, of key] n show ?thesis
      by (simp del: findLoop.simps add: findLoop_leaf_same_key)
  next
    case (Some child)
    with 7(2) obtain newChild where
      c: "alter (shift + FRAGMENT_SIZE) child key keyHash alterValue n = Inr (newChild, n')"
      by (auto simp: Let_def split: sum.splits if_splits)
    from 7(1) [OF refl Some c 7(3)]
    have ih: "newChild \<noteq> EMPTY_NODE"
      "hashedLeaves hashOf newChild \<Longrightarrow>
         findLoop (shift + FRAGMENT_SIZE) keyHash key newChild = Inr (Some v)"
      by simp_all
    show ?thesis
    proof (cases "newChild = child")
      case same: True
      with 7(2) Some c have n: "node' = ArrayNode nodeSize children"
        by (simp add: Let_def)
      have "findLoop shift keyHash key (ArrayNode nodeSize children) = Inr (Some v)"
        if "hashedLeaves hashOf (ArrayNode nodeSize children)"
      proof -
        from that Some have "hashedLeaves hashOf child"
          by (auto dest: js_index_all)
        with ih(2) same findLoop_array_child [OF Some, of key nodeSize] show ?thesis
          by (simp del: findLoop.simps)
      qed
      with n show ?thesis by simp
    next
      case other: False
      let ?children = "cloneAndSet children ?childIndex (Some newChild)"
      from 7(2) Some c ih(1) other have n: "node' = ArrayNode nodeSize ?children"
        by (simp add: Let_def)
      have cj: "js_index ?children ?childIndex = Some newChild"
        by (simp add: cloneAndSet_def js_index_js_assign)
      have "findLoop shift keyHash key (ArrayNode nodeSize ?children) = Inr (Some v)"
        if "hashedLeaves hashOf (ArrayNode nodeSize ?children)"
      proof -
        from that cj have "hashedLeaves hashOf newChild"
          by (auto dest: js_index_all)
        with ih(2) findLoop_array_child [OF cj, of key nodeSize] show ?thesis
          by (simp del: findLoop.simps)
      qed
      with n show ?thesis by simp
    qed
  qed
qed

lemma mergeLeavesLoop_hashed:
  "mergeLeavesLoop shift hashA a hashB b = Some merged \<Longrightarrow>
   hashedLeaves hashOf a \<longrightarrow> hashedLeaves hashOf b \<longrightarrow> hashedLeaves hashOf merged"
proof (erule mergeLeavesLoop.raw_induct [rotated], goal_cases)
  case (1 loop shift hash node otherHash otherNode merged)
  show ?case
  proof (cases "hashFragment shift hash = hashFragment shift otherHash")
    case True
    with 1(2) obtain child where
      c: "loop (shift + FRAGMENT_SIZE) hash node otherHash otherNode = Some child"
         "merged = PackedNode (toMask (hashFragment shift hash) OR toMask (hashFragment shift otherHash)) [Some child]"
      by (auto simp: Let_def split: bind_splits)
    from 1(1) [OF c(1)] c(2) show ?thesis by simp
  next
    case False
    with 1(2) show ?thesis
      by (auto simp: Let_def split: if_splits)
  qed
qed

lemma alterLeafNode_hashed:
  assumes "alterLeafNode shift hash nodeKey nodeValue (hashOf key) key f n = Inr (node', n')"
    and "inj hashOf" and "hash = hashOf nodeKey"
  shows "hashedLeaves hashOf node'"
proof (cases "isEqual key nodeKey")
  case True
  with assms show ?thesis
    by (auto simp: alterLeafNode_def split: prod.splits op.splits)
next
  case False
  with assms(2,3) have h: "hash \<noteq> hashOf key"
    by (auto simp: isEqual_def dest: injD)
  show ?thesis
  proof (cases "f NO_VALUE n")
    case (Pair op n'')
    show ?thesis
    proof (cases op)
      case REMOVE
      with Pair False assms show ?thesis
        by (auto simp: alterLeafNode_def)
    next
      case (INSERT v)
      with Pair False assms(1) h have
        "mergeLeavesLoop shift hash (LeafNode hash nodeKey nodeValue) (hashOf key)
           (LeafNode (hashOf key) key v) = Some node'"
        by (auto simp: alterLeafNode_def mergeLeaves_def split: option.splits)
      from mergeLeavesLoop_hashed [OF this, of hashOf] assms(3) show ?thesis
        by simp
    qed
  qed
qed

lemma alter_hashed:
  "hashedLeaves hashOf node \<Longrightarrow> inj hashOf \<Longrightarrow> keyHash = hashOf key \<Longrightarrow>
     alter shift node key keyHash f n = Inr (node', n') \<Longrightarrow> hashedLeaves hashOf node'"
  and "hashedLeaves hashOf (PackedNode bitmap children) \<Longrightarrow> inj hashOf \<Longrightarrow>
     keyHash = hashOf key \<Longrightarrow>
     alterPackedNode shift bitmap children keyHash key f n = Inr (node', n') \<Longrightarrow>
     hashedLeaves hashOf node'"
  and "hashedLeaves hashOf (ArrayNode nodeSize children) \<Longrightarrow> inj hashOf \<Longrightarrow>
     keyHash = hashOf key \<Longrightarrow>
     alterArrayNode shift nodeSize children keyHash key f n = Inr (node', n') \<Longrightarrow>
     hashedLeaves hashOf node'"
proof (induction shift node key keyHash f n and shift bitmap children keyHash key f n
    and shift nodeSize children keyHash key f n
    arbitrary: node' n' and node' n' and node' n'
    rule: alter_alterPackedNode_alterArrayNode.induct)
  case (1 shift key keyHash alterValue n)
  then show ?case
    by (auto split: prod.splits op.splits)
next
  case (2 shift hash pairs key keyHash alterValue n)
  then show ?case by simp
next
  case (3 shift nodeSize children key keyHash alterValue n)
  then show ?case by simp
next
  case (4 shift bitmap children key keyHash alterValue n)
  then show ?case by simp
next
  case (5 shift hash nodeKey nodeValue key keyHash alterValue n)
  then show ?case
    by (auto dest: alterLeafNode_hashed)
next
  case (6 shift bitmap children keyHash key alterValue n)
  let ?fragment = "hashFragment shift keyHash"
  let ?childIndex = "popCount (bitmap AND toMask ?fragment - 1)"
  note wf = 6(2)
  show ?case
  proof (cases "bitmap AND toMask ?fragment \<noteq> 0")
    case True
    with 6(5) obtain child newChild where
      ci: "js_index children ?childIndex = Some child"
      and c: "alter (shift + FRAGMENT_SIZE) child key keyHash alterValue n = Inr (newChild, n')"
      and r: "node' = (if newChild = EMPTY_NODE then
                 (if bitmap = toMask ?fragment then EMPTY_NODE
                  else PackedNode (bitmap XOR toMask ?fragment) (toSpliced children ?childIndex))
               else if newChild = child then PackedNode bitmap children
               else PackedNode bitmap (cloneAndSet children ?childIndex (Some newChild)))"
      by (auto simp: Let_def split: option.splits sum.splits if_splits)
    from wf ci have "hashedLeaves hashOf child"
      by (auto dest: js_index_all)
    from 6(1) [OF refl refl refl True ci this 6(3,4) c]
    have "hashedLeaves hashOf newChild" .
    with wf r show ?thesis
      by (auto simp: cloneAndSet_def js_assign_all toSpliced_all split: if_splits)
  next
    case False
    have e: "list_all (\<lambda>c. case c of None \<Rightarrow> True | Some child \<Rightarrow> hashedLeaves hashOf child)
          (replicate 32 (None :: ('a, 'b) node option))"
      by (simp add: list_all_iff)
    from False 6(5) wf 6(4) e show ?thesis
      by (auto simp: Let_def cloneAndInsert_all promoteLoop_all js_assign_all
          split: prod.splits op.splits if_splits)
  qed
next
  case (7 shift nodeSize children keyHash key alterValue n)
  let ?childIndex = "hashFragment shift keyHash"
  note wf = 7(2)
  show ?case
  proof (cases "js_index children ?childIndex")
    case None
    with 7(5) wf 7(4) show ?thesis
      by (auto simp: Let_def cloneAndSet_def js_assign_all split: prod.splits op.splits)
  next
    case (Some child)
    with 7(5) obtain newChild where
      c: "alter (shift + FRAGMENT_SIZE) child key keyHash alterValue n = Inr (newChild, n')"
      and r: "node' = (if newChild = child then ArrayNode nodeSize children
               else if newChild = EMPTY_NODE then
                 (if nodeSize = 1 then EMPTY_NODE
                  else ArrayNode nodeSize (cloneAndSet children ?childIndex None))
               else ArrayNode nodeSize (cloneAndSet children ?childIndex (Some newChild)))"
      by (auto simp: Let_def split: option.splits sum.splits if_splits)
    from wf Some have "hashedLeaves hashOf child"
      by (auto dest: js_index_all)
    from 7(1) [OF refl Some this 7(3,4) c]
    have "hashedLeaves hashOf newChild" .
    with wf r show ?thesis
      by (auto simp: cloneAndSet_def js_assign_all split: if_splits)
  qed
qed

lemma run_hashed:
  "hashedLeaves hashOf (root dict) \<Longrightarrow> inj hashOf \<Longrightarrow> run hashOf ops dict = Inr d \<Longrightarrow>
   hashedLeaves hashOf (root d)"
proof (induction ops arbitrary: dict)
  case Nil
  then show ?case by simp
next
  case (Cons op ops)
  show ?case
  proof (cases op)
    case (Insert key v)
    with Cons.prems(3) obtain dict' where
      s: "set_dict hashOf dict key v = Inr dict'" and r: "run hashOf ops dict' = Inr d"
      by (auto split: sum.splits)
    from s Cons.prems(1,2) have "hashedLeaves hashOf (root dict')"
      by (auto simp: set_dict_def split: sum.splits dest: alter_hashed(1))
    from Cons.IH [OF this Cons.prems(2) r] show ?thesis .
  next
    case (Remove key)
    with Cons.prems(3) obtain dict' where
      s: "remove hashOf dict key = Inr dict'" and r: "run hashOf ops dict' = Inr d"
      by (auto split: sum.splits)
    from s Cons.prems(1,2) have "hashedLeaves hashOf (root dict')"
      by (auto simp: remove_def split: sum.splits dest: alter_hashed(1))
    from Cons.IH [OF this Cons.prems(2) r] show ?thesis .
  qed
qed

lemma insert_then_get_injective_hash:
  assumes "inj hashOf" and "run hashOf ops empty_dict = Inr m"
    and "set_dict hashOf m k v = Inr m'"
  shows "get hashOf m' k = Inr (Ok v)"
proof -
  have "hashedLeaves hashOf (root (empty_dict :: ('a, 'b) dict))"
    by (simp add: empty_dict_def)
  from run_hashed [OF this assms(1,2)] have h: "hashedLeaves hashOf (root m)" .
  from assms(3) obtain n' where
    a: "alter 0 (root m) k (hashOf k)
         (\<lambda>arg new_size. (INSERT v, if arg = NO_VALUE then new_size + 1 else new_size))
         (size_field m) = Inr (root m', n')"
    by (auto simp: set_dict_def split: sum.splits)
  from alter_hashed(1) [OF h assms(1) refl a] have "hashedLeaves hashOf (root m')" .
  moreover from alter_find(1) [OF a, of v hashOf]
  have "hashedLeaves hashOf (root m') \<longrightarrow> findLoop 0 (hashOf k) k (root m') = Inr (Some v)"
    by simp
  ultimately show ?thesis
    by (simp add: get_def find_node_def)
qed

end
